theory Spec2Isabelle
  imports Main "HOL-Library.Word"
begin

unbundle bit_operations_syntax

section \<open>Data model\<close>

text \<open>
  \<open>unicode_t\<close> is \<open>int32_t\<close> (unicode_type.h).  Every comparison of a scalar in
  utf\_toolkit.cpp has an unsigned literal (\<open>0x0000d800u\<close>) on the other side, so the
  usual arithmetic conversions make it an unsigned 32-bit comparison: the order on
  \<open>32 word\<close>.  Right shifts of a scalar are arithmetic (\<open>signed_drop_bit\<close>).
\<close>

type_synonym unicode_t = "32 word"
type_synonym uint32_t = "32 word"
type_synonym uint8_t = "8 word"

text \<open>
  \<open>struct utf_text { uint32_t length; uint32_t offset; uint8_t* buffer; }\<close> (utf\_std.h).
  The pointer is \<open>None\<close> for \<open>nullptr\<close> and otherwise the byte region it points to.
\<close>

record utf_text =
  length_text :: uint32_t
  offset_text :: uint32_t
  buffer_text :: "uint8_t list option"

subsection \<open>cp\_errors (utf\_toolkit.h)\<close>

type_synonym cp_errors = "32 word"

definition Failed :: cp_errors where "Failed = push_bit 31 1"
definition InvalidBuffer :: cp_errors where "InvalidBuffer = push_bit 30 1"
definition InvalidOffset :: cp_errors where "InvalidOffset = push_bit 29 1"
definition MisalignedOffset :: cp_errors where "MisalignedOffset = push_bit 28 1"
definition MisalignedLength :: cp_errors where "MisalignedLength = push_bit 27 1"
definition WriteOverflow :: cp_errors where "WriteOverflow = push_bit 26 1"
definition ReadTruncated :: cp_errors where "ReadTruncated = push_bit 25 1"
definition ReadExhausted :: cp_errors where "ReadExhausted = push_bit 24 1"
definition NotEncodable :: cp_errors where "NotEncodable = push_bit 23 1"
definition NotDecodable :: cp_errors where "NotDecodable = push_bit 22 1"
definition InvalidPoint :: cp_errors where "InvalidPoint = push_bit 21 1"
definition ExtendedUCS4 :: cp_errors where "ExtendedUCS4 = push_bit 20 1"
definition Supplementary :: cp_errors where "Supplementary = push_bit 19 1"
definition NonCharacter :: cp_errors where "NonCharacter = push_bit 18 1"
definition TruncatedPair :: cp_errors where "TruncatedPair = push_bit 17 1"
definition SurrogatePair :: cp_errors where "SurrogatePair = push_bit 16 1"
definition HighSurrogate :: cp_errors where "HighSurrogate = push_bit 15 1"
definition LowSurrogate :: cp_errors where "LowSurrogate = push_bit 14 1"
definition DelimitString :: cp_errors where "DelimitString = push_bit 13 1"
definition IrregularForm :: cp_errors where "IrregularForm = push_bit 12 1"
definition BadSizeUTF8 :: cp_errors where "BadSizeUTF8 = push_bit 11 1"
definition ModifiedUTF8 :: cp_errors where "ModifiedUTF8 = push_bit 10 1"
definition OverlongUTF8 :: cp_errors where "OverlongUTF8 = push_bit 9 1"
definition ExtendedUTF8 :: cp_errors where "ExtendedUTF8 = push_bit 8 1"
definition Untransformable :: cp_errors where "Untransformable = push_bit 7 1"
definition NotEnoughBits :: cp_errors where "NotEnoughBits = push_bit 6 1"
definition DisallowedByte :: cp_errors where "DisallowedByte = push_bit 5 1"
definition UnexpectedByte :: cp_errors where "UnexpectedByte = push_bit 4 1"
definition ReservedBit3 :: cp_errors where "ReservedBit3 = push_bit 3 1"
definition ReservedBit2 :: cp_errors where "ReservedBit2 = push_bit 2 1"
definition ReservedBit1 :: cp_errors where "ReservedBit1 = push_bit 1 1"
definition ReservedBit0 :: cp_errors where "ReservedBit0 = push_bit 0 1"

lemmas bits_defs =
  Failed_def InvalidBuffer_def InvalidOffset_def MisalignedOffset_def MisalignedLength_def
  WriteOverflow_def ReadTruncated_def ReadExhausted_def NotEncodable_def NotDecodable_def
  InvalidPoint_def ExtendedUCS4_def Supplementary_def NonCharacter_def TruncatedPair_def
  SurrogatePair_def HighSurrogate_def LowSurrogate_def DelimitString_def IrregularForm_def
  BadSizeUTF8_def ModifiedUTF8_def OverlongUTF8_def ExtendedUTF8_def Untransformable_def
  NotEnoughBits_def DisallowedByte_def UnexpectedByte_def ReservedBit3_def ReservedBit2_def
  ReservedBit1_def ReservedBit0_def

definition ErrorsMask :: cp_errors where
  "ErrorsMask =
     Failed OR InvalidBuffer OR InvalidOffset OR MisalignedOffset OR
     MisalignedLength OR WriteOverflow OR ReadTruncated OR NotEncodable OR
     NotDecodable OR BadSizeUTF8 OR Untransformable OR NotEnoughBits OR
     DisallowedByte OR UnexpectedByte"

text \<open>The source repeats \<open>ReservedBit1\<close> and never names \<open>ReservedBit0\<close> here.\<close>

definition ReservedMask :: cp_errors where
  "ReservedMask = ReservedBit3 OR ReservedBit2 OR ReservedBit1 OR ReservedBit1"

definition NonReservedMask :: cp_errors where
  "NonReservedMask = NOT ReservedMask"

definition ByteIndexMask :: cp_errors where
  "ByteIndexMask = ReservedBit2 OR ReservedBit1 OR ReservedBit0"

text \<open>\<open>any()\<close>, \<open>any(mask)\<close>, \<open>none(mask)\<close>, \<open>clear(mask)\<close>, \<open>error()\<close>, \<open>no_error()\<close>.\<close>

definition any_set :: "cp_errors \<Rightarrow> bool" where
  "any_set state = (state AND NonReservedMask \<noteq> 0)"

definition any_of :: "cp_errors \<Rightarrow> cp_errors \<Rightarrow> bool" where
  "any_of state msk = (state AND msk \<noteq> 0)"

definition none_of :: "cp_errors \<Rightarrow> cp_errors \<Rightarrow> bool" where
  "none_of state msk = (\<not> any_of state msk)"

definition clear :: "cp_errors \<Rightarrow> cp_errors \<Rightarrow> cp_errors" where
  "clear state msk = state AND NOT msk"

definition error :: "cp_errors \<Rightarrow> bool" where
  "error state = any_of state ErrorsMask"

definition no_error :: "cp_errors \<Rightarrow> bool" where
  "no_error state = (\<not> error state)"

definition get_byte_index :: "cp_errors \<Rightarrow> uint32_t" where
  "get_byte_index state = state AND ByteIndexMask"

definition set_byte_index :: "cp_errors \<Rightarrow> uint32_t \<Rightarrow> cp_errors" where
  "set_byte_index state index = (state AND NOT ByteIndexMask) OR (index AND ByteIndexMask)"

subsection \<open>Cursor pre-flight (utf\_toolkit.h)\<close>

definition get_errors :: "utf_text \<Rightarrow> cp_errors" where
  "get_errors text =
     (let errors = 0;
          errors = (if buffer_text text = None
                    then errors OR (Failed OR InvalidBuffer) else errors);
          errors = (if offset_text text > length_text text
                    then errors OR (Failed OR InvalidOffset) else errors)
      in errors)"

definition get_errors_aligned :: "utf_text \<Rightarrow> uint32_t \<Rightarrow> cp_errors" where
  "get_errors_aligned text alignment_mask =
     (let errors = get_errors text;
          errors = (if offset_text text AND alignment_mask \<noteq> 0
                    then errors OR (Failed OR MisalignedOffset) else errors);
          errors = (if length_text text AND alignment_mask \<noteq> 0
                    then errors OR (Failed OR MisalignedLength) else errors)
      in errors)"

section \<open>Length functions\<close>

definition lenUTF8 :: "unicode_t \<Rightarrow> bool \<Rightarrow> bool \<Rightarrow> uint32_t" where
  "lenUTF8 unicode use_cesu use_java =
     (if unicode \<le> 0x7fffffff then
        (if unicode \<le> 0x0000007f then (if use_java \<and> unicode = 0 then 2 else 1)
         else if unicode \<le> 0x000007ff then 2
         else if unicode \<le> 0x0000ffff then 3
         else if unicode \<le> 0x0010ffff then (if use_cesu then 6 else 4)
         else if unicode \<le> 0x001fffff then 4
         else if unicode \<le> 0x03ffffff then 5
         else 6)
      else 0)"

definition lenUTF16 :: "unicode_t \<Rightarrow> bool \<Rightarrow> uint32_t" where
  "lenUTF16 unicode use_ucs2 =
     (if unicode \<le> 0x0010ffff then
        (if unicode \<le> 0x0000ffff then 2
         else if \<not> use_ucs2 then 4
         else 0)
      else 0)"

definition lenUTF32 :: "unicode_t \<Rightarrow> bool \<Rightarrow> bool \<Rightarrow> uint32_t" where
  "lenUTF32 unicode use_cesu use_ucs4 =
     (if unicode \<le> (if use_ucs4 then 0x7fffffff else 0x0010ffff) then
        (if use_cesu \<and> unicode \<ge> 0x00010000 \<and> unicode \<le> 0x0010ffff then 8 else 4)
      else 0)"

section \<open>UTF-8 overlong index codec\<close>

text \<open>
  Both functions return \<open>bool\<close> and write their results through references; the model
  returns the flag together with the values written.
\<close>

definition overlongToIndexUTF8 :: "unicode_t \<Rightarrow> uint32_t \<Rightarrow> bool \<times> uint32_t" where
  "overlongToIndexUTF8 unicode bytes =
     (if unicode \<ge> 0x00000000 then
        (if bytes = 2 then
           (if unicode < 0x00000080 then (True, unicode) else (False, 0))
         else if bytes = 3 then
           (if unicode < 0x00000800 then (True, unicode + 0x00000080) else (False, 0))
         else if bytes = 4 then
           (if unicode < 0x00010000 then (True, unicode + 0x00000880) else (False, 0))
         else if bytes = 5 then
           (if unicode < 0x00200000 then (True, unicode + 0x00010880) else (False, 0))
         else if bytes = 6 then
           (if unicode < 0x04000000 then (True, unicode + 0x00210880) else (False, 0))
         else (False, 0))
      else (False, 0))"

definition indexToOverlongUTF8 :: "uint32_t \<Rightarrow> bool \<times> unicode_t \<times> uint32_t" where
  "indexToOverlongUTF8 index =
     (if index < 0x00000080 then (True, index, 2)
      else if index < 0x00000880 then (True, index - 0x00000080, 3)
      else if index < 0x00010880 then (True, index - 0x00000880, 4)
      else if index < 0x00210880 then (True, index - 0x00010880, 5)
      else if index < 0x04210880 then (True, index - 0x00210880, 6)
      else (False, 0, 0))"


section \<open>Decoders\<close>

subsection \<open>internal::fetchUTF8\<close>

text \<open>
  A pointer into the cursor's region is the region together with the index the pointer
  stands at: \<open>buffer[index]\<close> for \<open>buffer = &text.buffer[text.offset]\<close> reads
  \<open>buf ! (base + unat index)\<close> with \<open>base = unat text.offset\<close>.  Every read of the
  source is guarded by \<open>limit = text.length - text.offset\<close>.

  The coalescing scan (lines 123--133):
  \<open>for (index = 1; index < count; ++index) if (lead byte) { count = index; break; }\<close>;
  the result is the final \<open>count\<close>.
\<close>

function fetch_coalesce :: "uint8_t list \<Rightarrow> nat \<Rightarrow> uint32_t \<Rightarrow> uint32_t \<Rightarrow> uint32_t" where
  "fetch_coalesce buffer base index count =
     (if index < count then
        (let byte = buffer ! (base + unat index) in
         if byte AND 0xc0 \<noteq> 0x80 \<and> byte < 0xfe then index
         else fetch_coalesce buffer base (index + 1) count)
      else count)"
  by pat_completeness auto
termination
proof (relation "measure (\<lambda>(buffer, base, index, count). unat (count - index))")
  fix index count :: uint32_t
  assume "index < count"
  then have "count - index \<noteq> 0" by simp
  then have "unat (count - index - 1) < unat (count - index)"
    by (simp add: unat_minus_one unat_gt_0)
  then show "((buffer, base, index + 1, count), (buffer, base, index, count))
       \<in> measure (\<lambda>(buffer, base, index, count). unat (count - index))"
    for buffer :: "uint8_t list" and base :: nat
    by (simp add: diff_diff_eq)
qed simp

declare fetch_coalesce.simps [simp del]

text \<open>The continuation walk (lines 159--171); returns \<open>(count, value, errors)\<close>.\<close>

function fetch_continue ::
  "uint8_t list \<Rightarrow> nat \<Rightarrow> uint32_t \<Rightarrow> uint32_t \<Rightarrow> unicode_t \<Rightarrow> cp_errors
     \<Rightarrow> uint32_t \<times> unicode_t \<times> cp_errors" where
  "fetch_continue buffer base index count val errors =
     (if index < count then
        (let byte = buffer ! (base + unat index) in
         if byte AND 0xc0 \<noteq> 0x80 then
           (let errors = clear errors ReadTruncated;
                errors = errors OR ((Failed OR NotDecodable) OR
                           (if byte \<ge> 0xfe then DisallowedByte else UnexpectedByte));
                errors = set_byte_index errors index
            in (index, val, errors))
         else fetch_continue buffer base (index + 1) count
                (push_bit 6 val OR (ucast byte AND 0x3f)) errors)
      else (count, val, errors))"
  by pat_completeness auto
termination
proof (relation "measure (\<lambda>(buffer, base, index, count, val, errors). unat (count - index))")
  fix index count :: uint32_t
  assume "index < count"
  then have "count - index \<noteq> 0" by simp
  then have "unat (count - index - 1) < unat (count - index)"
    by (simp add: unat_minus_one unat_gt_0)
  then show "((buffer, base, index + 1, count, val, errors), (buffer, base, index, count, v, e))
       \<in> measure (\<lambda>(buffer, base, index, count, val, errors). unat (count - index))"
    for buffer :: "uint8_t list" and base :: nat and val v :: unicode_t and errors e :: cp_errors
    by (simp add: diff_diff_eq)
qed simp

declare fetch_continue.simps [simp del]

text \<open>
  Lines 139--152: the expected length read off the lead byte, with the diagnostic so far.
\<close>

definition lead_length :: "uint8_t \<Rightarrow> uint32_t \<times> cp_errors" where
  "lead_length byte =
     (if byte \<le> 0xef then (drop_bit 5 (ucast byte) AND 3, 0)
      else if byte \<le> 0xf7 then (4, 0)
      else ((drop_bit 2 (ucast byte) AND 7) - 1, ExtendedUTF8))"

text \<open>Lines 153--157: a sequence longer than what is left is truncated.\<close>

definition fetch_truncate :: "uint32_t \<Rightarrow> uint32_t \<times> cp_errors \<Rightarrow> uint32_t \<times> cp_errors" where
  "fetch_truncate sz ce =
     (case ce of (count, errors) \<Rightarrow>
        if count > sz then (sz, errors OR (Failed OR NotDecodable OR ReadTruncated))
        else (count, errors))"

text \<open>
  Lines 172--184: the results, with the overlong test on a sequence read without error.
  The argument is \<open>(count, value, errors)\<close> as the continuation walk leaves them.
\<close>

definition fetch_finish ::
  "unicode_t \<Rightarrow> uint32_t \<times> unicode_t \<times> cp_errors \<Rightarrow> cp_errors \<times> unicode_t \<times> uint32_t" where
  "fetch_finish unicode cve =
     (case cve of (count, val, errors) \<Rightarrow>
        if no_error errors then
          (let n = (count OR push_bit 2 count) - 11 :: 32 word;
               shift = (n AND signed_drop_bit 31 (NOT n)) + 7
           in if count > 1 \<and> signed_drop_bit (unat shift) val = 0
              then (errors OR (if val = 0 \<and> count = 2 then ModifiedUTF8 else OverlongUTF8),
                    val, count)
              else (errors, val, count))
        else (errors, unicode, count))"

definition fetchUTF8 ::
  "uint8_t list \<Rightarrow> nat \<Rightarrow> uint32_t \<Rightarrow> bool \<Rightarrow> cp_errors \<times> unicode_t \<times> uint32_t" where
  "fetchUTF8 buffer base sz coalesce =
     (if sz < 1 then (ReadExhausted, 0, 0)
      else
        (let byte = buffer ! base;
             unicode = ucast byte
         in if byte + 2 \<le> 0xc1 then
              (if byte > 0x7f then
                 (let errors = (Failed OR NotDecodable) OR
                                 (if byte \<ge> 0xfe then DisallowedByte else UnexpectedByte)
                  in (errors, unicode, if coalesce then fetch_coalesce buffer base 1 sz else 1))
               else (0, unicode, 1))
            else
              (let (count, errors) = fetch_truncate sz (lead_length byte);
                   val = ucast byte AND (push_bit (unat (7 - count)) 1 - 1)
               in fetch_finish unicode (fetch_continue buffer base 1 count val errors))))"

subsection \<open>decodeUTF8\<close>

text \<open>Lines 1287--1343: range and validity flags, and the CESU join.\<close>

definition decodeUTF8_classify ::
  "uint8_t list \<Rightarrow> nat \<Rightarrow> uint32_t \<Rightarrow> bool \<Rightarrow> cp_errors \<Rightarrow> unicode_t \<Rightarrow> uint32_t
     \<Rightarrow> cp_errors \<times> unicode_t \<times> uint32_t" where
  "decodeUTF8_classify buffer base limit use_cesu errors unicode bytes =
     (if unicode \<ge> 0x0000d800 then
        (if unicode > 0x0010ffff then (errors OR ExtendedUCS4, unicode, bytes)
         else if unicode \<ge> 0x0000fdd0 then
           (let errors = (if unicode \<le> 0x0000fdef \<or> unicode AND 0x0000fffe = 0x0000fffe
                          then errors OR NonCharacter else errors);
                errors = (if unicode > 0x0000ffff then errors OR Supplementary else errors)
            in (errors, unicode, bytes))
         else if unicode AND 0xfffff800 = 0x0000d800 then
           (if unicode AND 0x00000400 \<noteq> 0 then (errors OR LowSurrogate, unicode, bytes)
            else
              (let errors = errors OR HighSurrogate
               in if use_cesu then
                    (let (check, lowbits, extra) =
                           fetchUTF8 buffer (base + unat bytes) (limit - bytes) False
                     in if any_set (check AND (ReadTruncated OR ReadExhausted))
                        then (errors OR TruncatedPair, unicode, bytes)
                        else if no_error check then
                          (if lowbits AND 0xfffffc00 = 0x0000dc00 then
                             (let unicode = push_bit 10 (unicode AND 0x000003ff)
                                              + (lowbits AND 0x000003ff) + 0x00010000;
                                  bytes = bytes + extra;
                                  errors = errors OR check;
                                  errors = errors XOR
                                             (SurrogatePair OR Supplementary OR HighSurrogate);
                                  errors = (if unicode AND 0x0000fffe = 0x0000fffe
                                            then errors OR NonCharacter else errors)
                              in (errors, unicode, bytes))
                           else (errors, unicode, bytes))
                        else (errors, unicode, bytes))
                  else (errors, unicode, bytes)))
         else (errors, unicode, bytes))
      else if unicode = 0 \<and> none_of errors (ModifiedUTF8 OR OverlongUTF8)
        then (errors OR DelimitString, unicode, bytes)
      else (errors, unicode, bytes))"

definition decodeUTF8 ::
  "utf_text \<Rightarrow> bool \<Rightarrow> bool \<Rightarrow> bool \<Rightarrow> bool \<Rightarrow> cp_errors \<times> unicode_t \<times> uint32_t" where
  "decodeUTF8 text use_cesu use_java strict coalesce =
     (let errors = get_errors text
      in if no_error errors then
           (case buffer_text text of
              None \<Rightarrow> (errors, 0, 0)
            | Some buffer \<Rightarrow>
               (let limit = length_text text - offset_text text;
                    base = unat (offset_text text);
                    (fetched, unicode, bytes) =
                       fetchUTF8 buffer base limit (coalesce \<and> \<not> strict);
                    errors = errors OR fetched
                in if no_error errors then
                     (let (errors, unicode, bytes) =
                            decodeUTF8_classify buffer base limit use_cesu errors unicode bytes
                      in if any_of errors
                              ((if use_java then 0 else ModifiedUTF8) OR
                               (OverlongUTF8 OR ExtendedUTF8 OR ExtendedUCS4 OR
                                HighSurrogate OR LowSurrogate))
                         then
                           (let errors = errors OR IrregularForm
                            in if strict
                               then (errors OR (Failed OR NotDecodable), ucast (buffer ! base), 1)
                               else (errors, unicode, bytes))
                         else (errors, unicode, bytes))
                   else if strict \<and> bytes > 1 then (errors, unicode, 1)
                   else (errors, unicode, bytes)))
         else (errors, 0, 0))"

subsection \<open>decodeUTF16 and decodeUTF32\<close>

definition decodeUTF16 ::
  "utf_text \<Rightarrow> bool \<Rightarrow> bool \<Rightarrow> cp_errors \<times> unicode_t \<times> uint32_t" where
  "decodeUTF16 text le use_ucs2 =
     (let errors = get_errors_aligned text 1
      in if no_error errors then
           (case buffer_text text of
              None \<Rightarrow> (errors, 0, 0)
            | Some buffer \<Rightarrow>
               (let limit = length_text text - offset_text text;
                    base = unat (offset_text text)
                in if limit < 2 then
                     (errors OR (if limit \<noteq> 0 then Failed OR ReadTruncated else ReadExhausted),
                      0, 0)
                   else
                     (let unicode =
                            (if le
                             then push_bit 8 (ucast (buffer ! (base + 1))) + ucast (buffer ! base)
                             else push_bit 8 (ucast (buffer ! base)) + ucast (buffer ! (base + 1)))
                      in if unicode \<ge> 0x0000d800 then
                           (if unicode \<ge> 0x0000fdd0 then
                              (if unicode \<le> 0x0000fdef \<or> unicode AND 0x0000fffe = 0x0000fffe
                               then (errors OR NonCharacter, unicode, 2)
                               else (errors, unicode, 2))
                            else if unicode AND 0xfffff800 = 0x0000d800 then
                              (let errors = errors OR IrregularForm
                               in if unicode AND 0x00000400 \<noteq> 0
                                  then (errors OR LowSurrogate, unicode, 2)
                                  else
                                    (let errors = errors OR HighSurrogate
                                     in if \<not> use_ucs2 then
                                          (if limit < 4 then (errors OR TruncatedPair, unicode, 2)
                                           else
                                             (let lowbits =
                                                (if le
                                                 then push_bit 8 (ucast (buffer ! (base + 3)))
                                                        + ucast (buffer ! (base + 2))
                                                 else push_bit 8 (ucast (buffer ! (base + 2)))
                                                        + ucast (buffer ! (base + 3))) :: unicode_t
                                              in if lowbits AND 0xfffffc00 = 0x0000dc00 then
                                                   (let unicode =
                                                          push_bit 10 (unicode AND 0x000003ff)
                                                            + (lowbits AND 0x000003ff) + 0x00010000;
                                                        errors = errors XOR
                                                          (SurrogatePair OR Supplementary OR
                                                           HighSurrogate OR IrregularForm);
                                                        errors =
                                                          (if unicode AND 0x0000fffe = 0x0000fffe
                                                           then errors OR NonCharacter else errors)
                                                    in (errors, unicode, 4))
                                                 else (errors, unicode, 2)))
                                        else (errors, unicode, 2)))
                            else (errors, unicode, 2))
                         else if unicode = 0 then (errors OR DelimitString, unicode, 2)
                         else (errors, unicode, 2))))
         else (errors, 0, 0))"

text \<open>The 32-bit code unit at \<open>buffer[at .. at + 3]\<close> in the given byte order.\<close>

definition unit32 :: "uint8_t list \<Rightarrow> nat \<Rightarrow> bool \<Rightarrow> unicode_t" where
  "unit32 buffer at le =
     (if le
      then push_bit 8 (push_bit 8 (push_bit 8 (ucast (buffer ! (at + 3)))
             + ucast (buffer ! (at + 2))) + ucast (buffer ! (at + 1))) + ucast (buffer ! at)
      else push_bit 8 (push_bit 8 (push_bit 8 (ucast (buffer ! at))
             + ucast (buffer ! (at + 1))) + ucast (buffer ! (at + 2))) + ucast (buffer ! (at + 3)))"

definition decodeUTF32 ::
  "utf_text \<Rightarrow> bool \<Rightarrow> bool \<Rightarrow> bool \<Rightarrow> cp_errors \<times> unicode_t \<times> uint32_t" where
  "decodeUTF32 text le use_cesu use_ucs4 =
     (let errors = get_errors_aligned text 3
      in if no_error errors then
           (case buffer_text text of
              None \<Rightarrow> (errors, 0, 0)
            | Some buffer \<Rightarrow>
               (let limit = length_text text - offset_text text;
                    base = unat (offset_text text)
                in if limit < 4 then
                     (errors OR (if limit \<noteq> 0 then Failed OR ReadTruncated else ReadExhausted),
                      0, 0)
                   else
                     (let unicode = unit32 buffer base le
                      in if unicode \<le> 0x00000000 then
                           (errors OR (if unicode \<noteq> 0 then InvalidPoint OR IrregularForm
                                       else DelimitString), unicode, 4)
                         else if unicode \<ge> 0x0000d800 then
                           (if unicode > 0x0010ffff then
                              (errors OR (if use_ucs4 then ExtendedUCS4
                                          else ExtendedUCS4 OR IrregularForm), unicode, 4)
                            else if unicode \<ge> 0x0000fdd0 then
                              (let errors =
                                     (if unicode \<le> 0x0000fdef \<or> unicode AND 0x0000fffe = 0x0000fffe
                                      then errors OR NonCharacter else errors);
                                   errors = (if unicode > 0x0000ffff
                                             then errors OR Supplementary else errors)
                               in (errors, unicode, 4))
                            else if unicode AND 0xfffff800 = 0x0000d800 then
                              (let errors = errors OR IrregularForm
                               in if unicode AND 0x00000400 \<noteq> 0
                                  then (errors OR LowSurrogate, unicode, 4)
                                  else
                                    (let errors = errors OR HighSurrogate
                                     in if use_cesu then
                                          (if limit < 8 then (errors OR TruncatedPair, unicode, 4)
                                           else
                                             (let lowbits = unit32 buffer (base + 4) le
                                              in if lowbits AND 0xfffffc00 = 0x0000dc00 then
                                                   (let unicode =
                                                          push_bit 10 (unicode AND 0x000003ff)
                                                            + (lowbits AND 0x000003ff) + 0x00010000;
                                                        errors = errors XOR
                                                          (SurrogatePair OR Supplementary OR
                                                           HighSurrogate OR IrregularForm);
                                                        errors =
                                                          (if unicode AND 0x0000fffe = 0x0000fffe
                                                           then errors OR NonCharacter else errors)
                                                    in (errors, unicode, 8))
                                                 else (errors, unicode, 4)))
                                        else (errors, unicode, 4)))
                            else (errors, unicode, 4))
                         else (errors, unicode, 4))))
         else (errors, 0, 0))"

subsection \<open>Code page 1252 tables (unicode\_utilities.cpp)\<close>

datatype CP1252Strictness = WindowsCompatible | StrictUndefined

definition isCP1252UndefinedC1 :: "unicode_t \<Rightarrow> bool" where
  "isCP1252UndefinedC1 unicode =
     (unicode = 0x0081 \<or> unicode = 0x008d \<or> unicode = 0x008f \<or> unicode = 0x0090 \<or>
      unicode = 0x009d)"

definition translate :: "16 word list" where
  "translate =
     [0x20ac, 0x0081, 0x201a, 0x0192, 0x201e, 0x2026, 0x2020, 0x2021,
      0x02c6, 0x2030, 0x0160, 0x2039, 0x0152, 0x008d, 0x017d, 0x008f,
      0x0090, 0x2018, 0x2019, 0x201c, 0x201d, 0x2022, 0x2013, 0x2014,
      0x02dc, 0x2122, 0x0161, 0x203a, 0x0153, 0x009d, 0x017e, 0x0178]"

text \<open>Returns the flag and the value left in \<open>unicode\<close>.\<close>

definition cp1252ToUnicode :: "uint8_t \<Rightarrow> CP1252Strictness \<Rightarrow> bool \<times> unicode_t" where
  "cp1252ToUnicode cp1252 strictness =
     (let index = cp1252 XOR 0x80;
          unicode = (if index < 32 then ucast (translate ! unat index) else ucast cp1252)
      in if strictness = StrictUndefined \<and> isCP1252UndefinedC1 unicode
         then (False, 0) else (True, unicode))"

text \<open>The \<open>switch\<close> of \<open>unicodeToCP1252\<close>, as the list of its cases.\<close>

definition unicodeToCP1252_cases :: "(unicode_t \<times> uint8_t) list" where
  "unicodeToCP1252_cases =
     [(0x0152, 0x8c), (0x0153, 0x9c), (0x0160, 0x8a), (0x0161, 0x9a), (0x0178, 0x9f),
      (0x017D, 0x8e), (0x017E, 0x9e), (0x0192, 0x83), (0x02C6, 0x88), (0x02DC, 0x98),
      (0x2013, 0x96), (0x2014, 0x97), (0x2018, 0x91), (0x2019, 0x92), (0x201A, 0x82),
      (0x201C, 0x93), (0x201D, 0x94), (0x201E, 0x84), (0x2020, 0x86), (0x2021, 0x87),
      (0x2022, 0x95), (0x2026, 0x85), (0x2030, 0x89), (0x2039, 0x8b), (0x203A, 0x9b),
      (0x20AC, 0x80), (0x2122, 0x99)]"

definition unicodeToCP1252 :: "unicode_t \<Rightarrow> CP1252Strictness \<Rightarrow> bool \<times> uint8_t" where
  "unicodeToCP1252 unicode strictness =
     (if unicode \<le> 0x00ff then
        (if unicode \<le> 0x007f \<or> unicode \<ge> 0x00a0 \<or>
            (strictness = WindowsCompatible \<and> isCP1252UndefinedC1 unicode)
         then (True, ucast unicode) else (False, 0x00))
      else
        (case map_of unicodeToCP1252_cases unicode of
           Some cp1252 \<Rightarrow> (True, cp1252)
         | None \<Rightarrow> (False, 0x00)))"

subsection \<open>decodeBYTE and decodeCP1252\<close>

text \<open>The coalescing scan of \<open>decodeBYTE\<close> (lines 1254--1263).\<close>

function byte_coalesce :: "uint8_t list \<Rightarrow> nat \<Rightarrow> uint32_t \<Rightarrow> uint32_t \<Rightarrow> uint32_t" where
  "byte_coalesce buffer base index count =
     (if index < count then
        (if buffer ! (base + unat index) AND 0x80 \<noteq> 0x80 then index
         else byte_coalesce buffer base (index + 1) count)
      else count)"
  by pat_completeness auto
termination
proof (relation "measure (\<lambda>(buffer, base, index, count). unat (count - index))")
  fix index count :: uint32_t
  assume "index < count"
  then have "count - index \<noteq> 0" by simp
  then have "unat (count - index - 1) < unat (count - index)"
    by (simp add: unat_minus_one unat_gt_0)
  then show "((buffer, base, index + 1, count), (buffer, base, index, count))
       \<in> measure (\<lambda>(buffer, base, index, count). unat (count - index))"
    for buffer :: "uint8_t list" and base :: nat
    by (simp add: diff_diff_eq)
qed simp

declare byte_coalesce.simps [simp del]

definition decodeBYTE ::
  "utf_text \<Rightarrow> bool \<Rightarrow> bool \<Rightarrow> cp_errors \<times> unicode_t \<times> uint32_t" where
  "decodeBYTE text use_ascii coalesce =
     (let errors = get_errors text
      in if no_error errors then
           (case buffer_text text of
              None \<Rightarrow> (errors, 0, 0)
            | Some buffer \<Rightarrow>
               (let limit = length_text text - offset_text text;
                    base = unat (offset_text text)
                in if limit < 1 then
                     (errors OR (if limit \<noteq> 0 then Failed OR ReadTruncated else ReadExhausted),
                      0, 0)
                   else
                     (let unicode = ucast (buffer ! base) :: unicode_t
                      in if use_ascii \<and> unicode AND 0x00000080 \<noteq> 0 then
                           (errors OR (Failed OR NotDecodable OR DisallowedByte), unicode,
                            if coalesce then byte_coalesce buffer base 1 limit else 1)
                         else if unicode = 0 then (errors OR DelimitString, unicode, 1)
                         else (errors, unicode, 1))))
         else (errors, 0, 0))"

text \<open>
  The coalescing scan of \<open>decodeCP1252\<close> (lines 1536--1547).  Each call of
  \<open>cp1252ToUnicode\<close> overwrites \<open>unicode\<close>; the scan returns \<open>(count, unicode)\<close>.
\<close>

function cp1252_coalesce ::
  "uint8_t list \<Rightarrow> nat \<Rightarrow> CP1252Strictness \<Rightarrow> uint32_t \<Rightarrow> uint32_t \<Rightarrow> unicode_t
     \<Rightarrow> uint32_t \<times> unicode_t" where
  "cp1252_coalesce buffer base strictness index count unicode =
     (if index < count then
        (let (ok, unicode) = cp1252ToUnicode (buffer ! (base + unat index)) strictness
         in if ok then (index, 0)
            else cp1252_coalesce buffer base strictness (index + 1) count unicode)
      else (count, unicode))"
  by pat_completeness auto
termination
proof (relation
    "measure (\<lambda>(buffer, base, strictness, index, count, unicode). unat (count - index))")
  fix index count :: uint32_t
  assume "index < count"
  then have "count - index \<noteq> 0" by simp
  then have "unat (count - index - 1) < unat (count - index)"
    by (simp add: unat_minus_one unat_gt_0)
  then show "((buffer, base, strictness, index + 1, count, u), (buffer, base, strictness, index, count, unicode))
       \<in> measure (\<lambda>(buffer, base, strictness, index, count, unicode). unat (count - index))"
    for buffer :: "uint8_t list" and base :: nat and strictness :: CP1252Strictness
      and u unicode :: unicode_t
    by (simp add: diff_diff_eq)
qed simp

declare cp1252_coalesce.simps [simp del]

definition decodeCP1252 ::
  "utf_text \<Rightarrow> bool \<Rightarrow> bool \<Rightarrow> cp_errors \<times> unicode_t \<times> uint32_t" where
  "decodeCP1252 text strict coalesce =
     (let errors = get_errors text
      in if no_error errors then
           (case buffer_text text of
              None \<Rightarrow> (errors, 0, 0)
            | Some buffer \<Rightarrow>
               (let limit = length_text text - offset_text text;
                    base = unat (offset_text text)
                in if limit < 1 then
                     (errors OR (if limit \<noteq> 0 then Failed OR ReadTruncated else ReadExhausted),
                      0, 0)
                   else
                     (let strictness = (if strict then StrictUndefined else WindowsCompatible);
                          (ok, unicode) = cp1252ToUnicode (buffer ! base) strictness
                      in if \<not> ok then
                           (let errors = errors OR (Failed OR NotDecodable)
                            in if coalesce then
                                 (let (count, unicode) =
                                        cp1252_coalesce buffer base strictness 1 limit unicode
                                  in (errors, unicode, count))
                               else (errors, unicode, 1))
                         else if unicode = 0 then (errors OR DelimitString, unicode, 1)
                         else (errors, unicode, 1))))
         else (errors, 0, 0))"

section \<open>Encoders\<close>

text \<open>
  \<open>buffer[0] = b0; buffer[1] = b1; ...\<close> for \<open>buffer = &text.buffer[text.offset]\<close>:
  consecutive bytes stored from index \<open>at\<close>.
\<close>

fun store :: "uint8_t list \<Rightarrow> nat \<Rightarrow> uint8_t list \<Rightarrow> uint8_t list" where
  "store buffer at [] = buffer"
| "store buffer at (b # bs) = store (buffer[at := b]) (Suc at) bs"

definition poke :: "utf_text \<Rightarrow> uint8_t list \<Rightarrow> utf_text" where
  "poke text bs =
     (case buffer_text text of
        None \<Rightarrow> text
      | Some buffer \<Rightarrow> text\<lparr>buffer_text := Some (store buffer (unat (offset_text text)) bs)\<rparr>)"

text \<open>
  The result of an encoder is \<open>(errors, text, bytes)\<close>: the diagnostic, the cursor with
  the bytes written into its region (its offset unchanged), and the byte count.
\<close>

definition encodeBYTE ::
  "utf_text \<Rightarrow> unicode_t \<Rightarrow> bool \<Rightarrow> cp_errors \<times> utf_text \<times> uint32_t" where
  "encodeBYTE text unicode use_ascii =
     (let errors = get_errors text;
          errors =
            (if unicode \<le> 0x00000000 then
               errors OR (if unicode \<noteq> 0
                          then Failed OR NotEncodable OR InvalidPoint OR NotEnoughBits
                          else DelimitString)
             else if unicode > (if use_ascii then 0x0000007f else 0x000000ff) then
               (let errors = errors OR (Failed OR NotEncodable OR NotEnoughBits)
                in if unicode \<ge> 0x0000d800 then
                     (if unicode > 0x0010ffff then errors OR ExtendedUCS4
                      else if unicode \<ge> 0x0000fdd0 then
                        (let errors =
                               (if unicode \<le> 0x0000fdef \<or> unicode AND 0x0000fffe = 0x0000fffe
                                then errors OR NonCharacter else errors)
                         in if unicode > 0x0000ffff then errors OR Supplementary else errors)
                      else if unicode AND 0xfffff800 = 0x0000d800 then
                        errors OR (if unicode AND 0x00000400 \<noteq> 0
                                   then LowSurrogate else HighSurrogate)
                      else errors)
                   else errors)
             else errors)
      in if no_error errors then
           (let limit = length_text text - offset_text text
            in if limit < 1 then (errors OR (Failed OR WriteOverflow), text, 0)
               else (errors, poke text [ucast unicode], 1))
         else (errors, text, 0))"

text \<open>Lines 763--788 of \<open>encodeUTF8\<close>: the diagnostic of the scalar.\<close>

definition encodeUTF8_flags :: "cp_errors \<Rightarrow> unicode_t \<Rightarrow> bool \<Rightarrow> bool \<Rightarrow> cp_errors" where
  "encodeUTF8_flags errors unicode use_cesu use_java =
     (if unicode \<le> 0x00000000 then
        errors OR (if unicode \<noteq> 0
                   then Failed OR NotEncodable OR InvalidPoint OR NotEnoughBits
                   else (if use_java then ModifiedUTF8 else DelimitString))
      else if unicode \<ge> 0x0000d800 then
        (if unicode > 0x0010ffff then
           errors OR (if unicode > 0x001fffff
                      then ExtendedUTF8 OR ExtendedUCS4 OR IrregularForm
                      else ExtendedUCS4 OR IrregularForm)
         else if unicode \<ge> 0x0000fdd0 then
           (let errors =
                  (if unicode \<le> 0x0000fdef \<or> unicode AND 0x0000fffe = 0x0000fffe
                   then errors OR NonCharacter else errors)
            in if unicode > 0x0000ffff
               then errors OR (if use_cesu then Supplementary OR SurrogatePair
                               else Supplementary)
               else errors)
         else if unicode AND 0xfffff800 = 0x0000d800 then
           errors OR (if unicode AND 0x00000400 \<noteq> 0
                      then LowSurrogate OR IrregularForm else HighSurrogate OR IrregularForm)
         else errors)
      else errors)"

text \<open>
  \<open>surrogate = ((((surrogate >> 10) | (surrogate << 16)) & 0x03ff03ffu) | 0xdc00d800u)\<close>
  for \<open>surrogate = unicode - 0x00010000u\<close>: the high surrogate in the low half, the low
  surrogate in the high half.
\<close>

definition surrogate_pair :: "unicode_t \<Rightarrow> unicode_t" where
  "surrogate_pair unicode =
     (let surrogate = unicode - 0x00010000
      in ((signed_drop_bit 10 surrogate OR push_bit 16 surrogate) AND 0x03ff03ff)
           OR 0xdc00d800)"

definition encodeUTF8 ::
  "utf_text \<Rightarrow> unicode_t \<Rightarrow> bool \<Rightarrow> bool \<Rightarrow> cp_errors \<times> utf_text \<times> uint32_t" where
  "encodeUTF8 text unicode use_cesu use_java =
     (let errors = encodeUTF8_flags (get_errors text) unicode use_cesu use_java
      in if no_error errors then
           (let limit = length_text text - offset_text text
            in if unicode \<le> 0x0000007f then
                 (if any_of errors ModifiedUTF8 then
                    (if limit < 2 then (errors OR (Failed OR WriteOverflow), text, 0)
                     else (errors, poke text [0xc0, 0x80], 2))
                  else
                    (if limit < 1 then (errors OR (Failed OR WriteOverflow), text, 0)
                     else (errors, poke text [ucast unicode], 1)))
               else if unicode \<le> 0x000007ff then
                 (if limit < 2 then (errors OR (Failed OR WriteOverflow), text, 0)
                  else (errors, poke text
                          [ucast (signed_drop_bit 6 unicode) OR 0xc0,
                           (ucast unicode AND 0x3f) OR 0x80], 2))
               else if unicode \<le> 0x0000ffff then
                 (if limit < 3 then (errors OR (Failed OR WriteOverflow), text, 0)
                  else (errors, poke text
                          [ucast (signed_drop_bit 12 unicode) OR 0xe0,
                           (ucast (signed_drop_bit 6 unicode) AND 0x3f) OR 0x80,
                           (ucast unicode AND 0x3f) OR 0x80], 3))
               else if unicode \<le> 0x0010ffff \<and> any_of errors SurrogatePair then
                 (if limit < 6 then (errors OR (Failed OR WriteOverflow), text, 0)
                  else
                    (let surrogate = surrogate_pair unicode
                     in (errors, poke text
                          [(ucast (signed_drop_bit 12 surrogate) AND 0x0f) OR 0xe0,
                           (ucast (signed_drop_bit 6 surrogate) AND 0x3f) OR 0x80,
                           (ucast surrogate AND 0x3f) OR 0x80,
                           (ucast (signed_drop_bit 28 surrogate) AND 0x0f) OR 0xe0,
                           (ucast (signed_drop_bit 22 surrogate) AND 0x3f) OR 0x80,
                           (ucast (signed_drop_bit 16 surrogate) AND 0x3f) OR 0x80], 6)))
               else if unicode \<le> 0x001fffff then
                 (if limit < 4 then (errors OR (Failed OR WriteOverflow), text, 0)
                  else (errors, poke text
                          [ucast (signed_drop_bit 18 unicode) OR 0xf0,
                           (ucast (signed_drop_bit 12 unicode) AND 0x3f) OR 0x80,
                           (ucast (signed_drop_bit 6 unicode) AND 0x3f) OR 0x80,
                           (ucast unicode AND 0x3f) OR 0x80], 4))
               else if unicode \<le> 0x03ffffff then
                 (if limit < 5 then (errors OR (Failed OR WriteOverflow), text, 0)
                  else (errors, poke text
                          [ucast (signed_drop_bit 24 unicode) OR 0xf8,
                           (ucast (signed_drop_bit 18 unicode) AND 0x3f) OR 0x80,
                           (ucast (signed_drop_bit 12 unicode) AND 0x3f) OR 0x80,
                           (ucast (signed_drop_bit 6 unicode) AND 0x3f) OR 0x80,
                           (ucast unicode AND 0x3f) OR 0x80], 5))
               else
                 (if limit < 6 then (errors OR (Failed OR WriteOverflow), text, 0)
                  else (errors, poke text
                          [ucast (signed_drop_bit 30 unicode) OR 0xfc,
                           (ucast (signed_drop_bit 24 unicode) AND 0x3f) OR 0x80,
                           (ucast (signed_drop_bit 18 unicode) AND 0x3f) OR 0x80,
                           (ucast (signed_drop_bit 12 unicode) AND 0x3f) OR 0x80,
                           (ucast (signed_drop_bit 6 unicode) AND 0x3f) OR 0x80,
                           (ucast unicode AND 0x3f) OR 0x80], 6)))
         else (errors, text, 0))"

definition encodeUTF16_flags :: "cp_errors \<Rightarrow> unicode_t \<Rightarrow> bool \<Rightarrow> cp_errors" where
  "encodeUTF16_flags errors unicode use_ucs2 =
     (if unicode \<le> 0x00000000 then
        errors OR (if unicode \<noteq> 0
                   then Failed OR NotEncodable OR InvalidPoint OR NotEnoughBits
                   else DelimitString)
      else if unicode \<ge> 0x0000d800 then
        (if unicode > 0x0010ffff then errors OR (Failed OR ExtendedUCS4 OR NotEnoughBits)
         else if unicode \<ge> 0x0000fdd0 then
           (let errors =
                  (if unicode \<le> 0x0000fdef \<or> unicode AND 0x0000fffe = 0x0000fffe
                   then errors OR NonCharacter else errors)
            in if unicode > 0x0000ffff
               then errors OR (if use_ucs2 then Failed OR Supplementary OR NotEnoughBits
                               else Supplementary OR SurrogatePair)
               else errors)
         else if unicode AND 0xfffff800 = 0x0000d800 then
           errors OR (if unicode AND 0x00000400 \<noteq> 0
                      then LowSurrogate OR IrregularForm else HighSurrogate OR IrregularForm)
         else errors)
      else errors)"

definition encodeUTF16 ::
  "utf_text \<Rightarrow> unicode_t \<Rightarrow> bool \<Rightarrow> bool \<Rightarrow> cp_errors \<times> utf_text \<times> uint32_t" where
  "encodeUTF16 text unicode le use_ucs2 =
     (let errors = encodeUTF16_flags (get_errors_aligned text 1) unicode use_ucs2
      in if no_error errors then
           (let limit = length_text text - offset_text text
            in if any_of errors SurrogatePair then
                 (if limit < 4 then (errors OR (Failed OR WriteOverflow), text, 0)
                  else
                    (let surrogate = surrogate_pair unicode
                     in if le then
                          (errors, poke text
                             [ucast surrogate, ucast (signed_drop_bit 8 surrogate),
                              ucast (signed_drop_bit 16 surrogate),
                              ucast (signed_drop_bit 24 surrogate)], 4)
                        else
                          (errors, poke text
                             [ucast (signed_drop_bit 8 surrogate), ucast surrogate,
                              ucast (signed_drop_bit 24 surrogate),
                              ucast (signed_drop_bit 16 surrogate)], 4)))
               else
                 (if limit < 2 then (errors OR (Failed OR WriteOverflow), text, 0)
                  else if le then
                    (errors, poke text [ucast unicode, ucast (signed_drop_bit 8 unicode)], 2)
                  else
                    (errors, poke text [ucast (signed_drop_bit 8 unicode), ucast unicode], 2)))
         else (errors, text, 0))"

definition encodeUTF32_flags :: "cp_errors \<Rightarrow> unicode_t \<Rightarrow> bool \<Rightarrow> bool \<Rightarrow> cp_errors" where
  "encodeUTF32_flags errors unicode use_cesu use_ucs4 =
     (if unicode \<le> 0x00000000 then
        errors OR (if unicode \<noteq> 0 then InvalidPoint else DelimitString)
      else if unicode \<ge> 0x0000d800 then
        (if unicode > 0x0010ffff then
           errors OR (if use_ucs4 then ExtendedUCS4 else ExtendedUCS4 OR IrregularForm)
         else if unicode \<ge> 0x0000fdd0 then
           (let errors =
                  (if unicode \<le> 0x0000fdef \<or> unicode AND 0x0000fffe = 0x0000fffe
                   then errors OR NonCharacter else errors)
            in if unicode > 0x0000ffff
               then errors OR (if use_cesu then Supplementary OR SurrogatePair
                               else Supplementary)
               else errors)
         else if unicode AND 0xfffff800 = 0x0000d800 then
           errors OR (if unicode AND 0x00000400 \<noteq> 0
                      then LowSurrogate OR IrregularForm else HighSurrogate OR IrregularForm)
         else errors)
      else errors)"

definition encodeUTF32 ::
  "utf_text \<Rightarrow> unicode_t \<Rightarrow> bool \<Rightarrow> bool \<Rightarrow> bool \<Rightarrow> cp_errors \<times> utf_text \<times> uint32_t" where
  "encodeUTF32 text unicode le use_cesu use_ucs4 =
     (let errors = encodeUTF32_flags (get_errors_aligned text 3) unicode use_cesu use_ucs4
      in if no_error errors then
           (let limit = length_text text - offset_text text
            in if any_of errors SurrogatePair then
                 (if limit < 8 then (errors OR (Failed OR WriteOverflow), text, 0)
                  else
                    (let surrogate = surrogate_pair unicode
                     in if le then
                          (errors, poke text
                             [ucast surrogate, ucast (signed_drop_bit 8 surrogate), 0, 0,
                              ucast (signed_drop_bit 16 surrogate),
                              ucast (signed_drop_bit 24 surrogate), 0, 0], 8)
                        else
                          (errors, poke text
                             [0, 0, ucast (signed_drop_bit 8 surrogate), ucast surrogate,
                              0, 0, ucast (signed_drop_bit 24 surrogate),
                              ucast (signed_drop_bit 16 surrogate)], 8)))
               else
                 (if limit < 4 then (errors OR (Failed OR WriteOverflow), text, 0)
                  else if le then
                    (errors, poke text
                       [ucast unicode, ucast (signed_drop_bit 8 unicode),
                        ucast (signed_drop_bit 16 unicode),
                        ucast (signed_drop_bit 24 unicode)], 4)
                  else
                    (errors, poke text
                       [ucast (signed_drop_bit 24 unicode), ucast (signed_drop_bit 16 unicode),
                        ucast (signed_drop_bit 8 unicode), ucast unicode], 4)))
         else (errors, text, 0))"

definition encodeCP1252 ::
  "utf_text \<Rightarrow> unicode_t \<Rightarrow> bool \<Rightarrow> cp_errors \<times> utf_text \<times> uint32_t" where
  "encodeCP1252 text unicode strict =
     (let errors = get_errors text;
          (ok, cp1252) =
             (if unicode \<le> 0x00000000 then (True, 0)
              else unicodeToCP1252 unicode
                     (if strict then StrictUndefined else WindowsCompatible));
          errors =
            (if unicode \<le> 0x00000000 then
               errors OR (if unicode \<noteq> 0
                          then Failed OR NotEncodable OR InvalidPoint OR NotEnoughBits
                          else DelimitString)
             else if \<not> ok then
               (let errors = errors OR (Failed OR NotEncodable)
                in if unicode \<ge> 0x0000d800 then
                     (if unicode > 0x0010ffff then errors OR ExtendedUCS4
                      else if unicode \<ge> 0x0000fdd0 then
                        (let errors =
                               (if unicode \<le> 0x0000fdef \<or> unicode AND 0x0000fffe = 0x0000fffe
                                then errors OR NonCharacter else errors)
                         in if unicode > 0x0000ffff then errors OR Supplementary else errors)
                      else if unicode AND 0xfffff800 = 0x0000d800 then
                        errors OR (if unicode AND 0x00000400 \<noteq> 0
                                   then LowSurrogate else HighSurrogate)
                      else errors)
                   else errors)
             else errors)
      in if no_error errors then
           (let limit = length_text text - offset_text text
            in if limit < 1 then (errors OR (Failed OR WriteOverflow), text, 0)
               else (errors, poke text [cp1252], 1))
         else (errors, text, 0))"

section \<open>Forward skippers\<close>

subsection \<open>internal::stepSeqUTF8 and internal::stepSeqUTF8st\<close>

text \<open>
  Here \<open>buffer\<close> is \<open>text.buffer\<close> itself and \<open>index\<close> starts at \<open>offset\<close>, so
  \<open>buffer[index]\<close> is an absolute read; the source's \<open>buffer[1]\<close>, \<open>buffer[2]\<close>, ... and
  \<open>verify = buffer + bytes\<close> are absolute too and are kept so.

  \<open>while (limit > count) { if ((buffer[index] & 0xc0u) != 0x80u) break; ++count; ++index; }\<close>
\<close>

function step_continuation ::
  "uint8_t list \<Rightarrow> uint32_t \<Rightarrow> uint32_t \<Rightarrow> uint32_t \<Rightarrow> uint32_t \<times> uint32_t" where
  "step_continuation buffer limit count index =
     (if limit > count then
        (if buffer ! unat index AND 0xc0 \<noteq> 0x80 then (count, index)
         else step_continuation buffer limit (count + 1) (index + 1))
      else (count, index))"
  by pat_completeness auto
termination
proof (relation "measure (\<lambda>(buffer, limit, count, index). unat (limit - count))")
  fix limit count :: uint32_t
  assume "count < limit"
  then have "limit - count \<noteq> 0" by simp
  then have "unat (limit - count - 1) < unat (limit - count)"
    by (simp add: unat_minus_one unat_gt_0)
  then show "((buffer, limit, count + 1, index + 1), (buffer, limit, count, index))
       \<in> measure (\<lambda>(buffer, limit, count, index). unat (limit - count))"
    for buffer :: "uint8_t list" and index :: uint32_t
    by (simp add: diff_diff_eq)
qed simp

declare step_continuation.simps [simp del]

text \<open>
  \<open>while (limit > count) { byte = buffer[index]; if (lead byte) break; ++count; ++index; }\<close>
  where a lead byte is not a continuation byte and at most \<open>maxlead\<close> (\<open>0xfd\<close>, or \<open>0xf7\<close>
  in the strict scanner).
\<close>

function step_trailing ::
  "uint8_t \<Rightarrow> uint8_t list \<Rightarrow> uint32_t \<Rightarrow> uint32_t \<Rightarrow> uint32_t \<Rightarrow> uint32_t \<times> uint32_t" where
  "step_trailing maxlead buffer limit count index =
     (if limit > count then
        (let byte = buffer ! unat index
         in if byte AND 0xc0 \<noteq> 0x80 \<and> byte \<le> maxlead then (count, index)
            else step_trailing maxlead buffer limit (count + 1) (index + 1))
      else (count, index))"
  by pat_completeness auto
termination
proof (relation "measure (\<lambda>(maxlead, buffer, limit, count, index). unat (limit - count))")
  fix limit count :: uint32_t
  assume "count < limit"
  then have "limit - count \<noteq> 0" by simp
  then have "unat (limit - count - 1) < unat (limit - count)"
    by (simp add: unat_minus_one unat_gt_0)
  then show "((maxlead, buffer, limit, count + 1, index + 1), (maxlead, buffer, limit, count, index))
       \<in> measure (\<lambda>(maxlead, buffer, limit, count, index). unat (limit - count))"
    for buffer :: "uint8_t list" and index :: uint32_t and maxlead :: uint8_t
    by (simp add: diff_diff_eq)
qed simp

declare step_trailing.simps [simp del]

text \<open>Lines 358--461: the CESU branch; returns \<open>(bytes, count, index)\<close>.\<close>

definition stepSeqUTF8_cesu ::
  "uint8_t list \<Rightarrow> uint32_t \<Rightarrow> uint8_t \<Rightarrow> uint32_t \<Rightarrow> uint32_t \<Rightarrow> uint32_t
     \<Rightarrow> uint32_t \<times> uint32_t \<times> uint32_t" where
  "stepSeqUTF8_cesu buffer limit byte check count index =
     (if byte \<le> 0x7f then (1, count, index)
      else if byte \<le> 0xdf then ((if limit \<ge> 2 then 2 else check), count, index)
      else
        (let (high_surrogate, bytes) =
               (if byte \<le> 0xef then
                  (if check \<ge> 3
                   then (byte = 0xed \<and> buffer ! 1 AND 0xf0 = 0xa0, 3)
                   else (False, check))
                else if byte \<le> 0xf7 then
                  (if check \<ge> 4
                   then (byte = 0xf0 \<and> buffer ! 1 = 0x8d \<and> buffer ! 2 AND 0xf0 = 0xa0, 4)
                   else (False, check))
                else if byte \<le> 0xfb then
                  (if check \<ge> 5
                   then (byte = 0xf8 \<and> buffer ! 2 = 0x8d \<and> buffer ! 3 AND 0xf0 = 0xa0, 5)
                   else (False, check))
                else
                  (if check \<ge> 6
                   then (byte = 0xfc \<and> buffer ! 3 = 0x8d \<and> buffer ! 4 AND 0xf0 = 0xa0, 6)
                   else (False, check)))
         in if high_surrogate then
              (let check = limit - bytes
               in if check \<ge> 3 then
                    (let verify = unat bytes;
                         lead = buffer ! verify;
                         extra =
                           (if lead = 0xed then 3
                            else if lead = 0xf0 then
                              (if check \<ge> 4 \<and> buffer ! (verify + 1) = 0x8d then 4 else 0)
                            else if lead = 0xf8 then
                              (if check \<ge> 5 \<and> buffer ! (verify + 1) AND 0xc0 = 0x80 \<and>
                                  buffer ! (verify + 2) = 0x8d then 5 else 0)
                            else if lead = 0xfc then
                              (if check \<ge> 6 \<and> buffer ! (verify + 1) AND 0xc0 = 0x80 \<and>
                                  buffer ! (verify + 2) AND 0xc0 = 0x80 \<and>
                                  buffer ! (verify + 3) = 0x8d then 6 else 0)
                            else 0) :: uint32_t
                     in if extra \<noteq> 0 \<and>
                           buffer ! (verify + unat (extra - 2)) AND 0xf0 = 0xb0 \<and>
                           buffer ! (verify + unat (extra - 1)) AND 0xc0 = 0x80
                        then (bytes + extra, count + extra, index + extra)
                        else (bytes, count, index))
                  else (bytes, count, index))
            else (bytes, count, index)))"

text \<open>The result is \<open>(bytes, extra)\<close>.\<close>

definition stepSeqUTF8 ::
  "uint8_t list \<Rightarrow> uint32_t \<Rightarrow> uint32_t \<Rightarrow> bool \<Rightarrow> uint32_t \<times> uint32_t" where
  "stepSeqUTF8 buffer offset limit use_cesu =
     (if limit \<noteq> 0 then
        (let byte = buffer ! unat offset;
             count = 1;
             index = offset + 1;
             (bytes, count, index) =
               (if byte AND 0xc0 \<noteq> 0x80 \<and> byte \<le> 0xfd then
                  (let (count, index) = step_continuation buffer limit count index;
                       check = count;
                       (bytes, count, index) =
                         (if use_cesu then stepSeqUTF8_cesu buffer limit byte check count index
                          else
                            (let bytes =
                                   (if byte \<le> 0xdf then (if byte \<le> 0x7f then 1 else 2)
                                    else if byte \<le> 0xf7 then (if byte \<le> 0xef then 3 else 4)
                                    else (if byte \<le> 0xfb then 5 else 6))
                             in ((if bytes > check then check else bytes), count, index)))
                   in (bytes, count - bytes, index))
                else (0, count, index));
             (count, index) = step_trailing 0xfd buffer limit count index
         in (bytes, count))
      else (0, 0))"

definition stepSeqUTF8st ::
  "uint8_t list \<Rightarrow> uint32_t \<Rightarrow> uint32_t \<Rightarrow> bool \<Rightarrow> bool \<Rightarrow> uint32_t \<times> uint32_t" where
  "stepSeqUTF8st buffer offset limit use_cesu use_java =
     (if limit \<noteq> 0 then
        (let index = offset;
             byte = buffer ! unat index;
             bytes =
               (if byte AND 0xc0 \<noteq> 0x80 \<and> byte \<le> 0xf7 then
                  (if byte \<le> 0x7f then 1
                   else if limit \<ge> 2 \<and> buffer ! 1 AND 0xc0 = 0x80 then
                     (let leading = push_bit 8 (ucast byte) OR ucast (buffer ! 1) :: 16 word
                      in if byte \<le> 0xdf then
                           (if leading \<ge> 0xc280 \<or> (use_java \<and> leading = 0xc080) then 2 else 0)
                         else if limit \<ge> 3 \<and> buffer ! 2 AND 0xc0 = 0x80 then
                           (if byte \<le> 0xef then
                              (if leading \<ge> 0xe0a0 then
                                 (if leading AND 0xffe0 \<noteq> 0xeda0 then 3
                                  else if use_cesu \<and> leading AND 0xfff0 = 0xeda0 \<and> limit \<ge> 6
                                  then
                                    (if buffer ! 3 = 0xed \<and> buffer ! 4 AND 0xf0 = 0xa0 \<and>
                                        buffer ! 5 AND 0xc0 = 0x80 then 6 else 0)
                                  else 0)
                               else 0)
                            else if limit \<ge> 4 \<and> buffer ! 3 AND 0xc0 = 0x80 then
                              (if leading \<ge> 0xf090 \<and> leading \<le> 0xf48f then 4 else 0)
                            else 0)
                         else 0)
                   else 0)
                else 0) :: uint32_t;
             count = (if bytes \<noteq> 0 then bytes else 1);
             index = index + count;
             (count, index) = step_trailing 0xf7 buffer limit count index
         in (bytes, count - bytes))
      else (0, 0))"

subsection \<open>stepUTF8\<close>

text \<open>
  The loop of \<open>stepUTF8\<close> (lines 1848--1882) on its local state
  \<open>(points, offset, limit, bytes, extra)\<close>; the result is \<open>(points, offset)\<close> when the loop
  ends and \<open>None\<close> when it does not.
\<close>

partial_function (option) stepUTF8_loop ::
  "uint8_t list \<Rightarrow> uint32_t \<Rightarrow> bool \<Rightarrow> bool \<Rightarrow> bool \<Rightarrow> bool \<Rightarrow>
   uint32_t \<Rightarrow> uint32_t \<Rightarrow> uint32_t \<Rightarrow> uint32_t \<Rightarrow> uint32_t \<Rightarrow> (uint32_t \<times> uint32_t) option" where
  "stepUTF8_loop buffer count use_cesu use_java strict coalesce points offset limit bytes extra =
     (if points < count \<and> limit > 0 then
        (if extra \<noteq> 0 then
           (if coalesce \<and> \<not> strict then
              stepUTF8_loop buffer count use_cesu use_java strict coalesce
                (points + 1) (offset + extra) (limit - extra) bytes 0
            else
              (let points = points + extra;
                   offset = offset + extra;
                   limit = limit - extra
               in if points > count
                  then stepUTF8_loop buffer count use_cesu use_java strict coalesce
                         count (offset - (points - count)) limit bytes 0
                  else stepUTF8_loop buffer count use_cesu use_java strict coalesce
                         points offset limit bytes 0))
         else
           (let (bytes, extra) =
                  (if strict then stepSeqUTF8st buffer offset limit use_cesu use_java
                   else stepSeqUTF8 buffer offset limit use_cesu)
            in if bytes \<noteq> 0
               then stepUTF8_loop buffer count use_cesu use_java strict coalesce
                      (points + 1) (offset + bytes) (limit - bytes) 0 extra
               else stepUTF8_loop buffer count use_cesu use_java strict coalesce
                      points offset limit bytes extra))
      else Some (points, offset))"

declare stepUTF8_loop.simps [code]

text \<open>The result of a skipper is \<open>(points, text)\<close>: the count and the moved cursor.\<close>

definition stepUTF8 ::
  "utf_text \<Rightarrow> uint32_t \<Rightarrow> bool \<Rightarrow> bool \<Rightarrow> bool \<Rightarrow> bool \<Rightarrow> (uint32_t \<times> utf_text) option" where
  "stepUTF8 text count use_cesu use_java strict coalesce =
     (if count \<noteq> 0 \<and> no_error (get_errors text) then
        (case buffer_text text of
           None \<Rightarrow> Some (0, text)
         | Some buffer \<Rightarrow>
            map_option (\<lambda>(points, offset). (points, text\<lparr>offset_text := offset\<rparr>))
              (stepUTF8_loop buffer count use_cesu use_java strict coalesce
                 0 (offset_text text) (length_text text - offset_text text) 0 0))
      else Some (0, text))"

subsection \<open>stepBYTE, stepUTF16, stepUTF32, stepCP1252\<close>

text \<open>In these loops \<open>at\<close> is the position of the moving pointer \<open>buffer\<close>.\<close>

function stepBYTE_loop ::
  "uint8_t list \<Rightarrow> uint32_t \<Rightarrow> uint32_t \<Rightarrow> uint32_t \<Rightarrow> nat \<Rightarrow> bool \<Rightarrow> uint32_t \<times> uint32_t" where
  "stepBYTE_loop buffer count points limit at ascii =
     (if points < count \<and> limit > 0 then
        (if buffer ! at AND 0x80 \<noteq> 0x80
         then stepBYTE_loop buffer count (points + 1) (limit - 1) (at + 1) True
         else if ascii
         then stepBYTE_loop buffer count (points + 1) (limit - 1) (at + 1) False
         else stepBYTE_loop buffer count points (limit - 1) (at + 1) ascii)
      else (points, limit))"
  by pat_completeness auto
termination
  by (relation "measure (\<lambda>(buffer, count, points, limit, at, ascii). unat limit)")
     (simp_all add: unat_minus_one unat_gt_0 word_greater_zero_iff)

declare stepBYTE_loop.simps [simp del]

definition stepBYTE ::
  "utf_text \<Rightarrow> uint32_t \<Rightarrow> bool \<Rightarrow> bool \<Rightarrow> uint32_t \<times> utf_text" where
  "stepBYTE text count use_ascii coalesce =
     (if count \<noteq> 0 \<and> no_error (get_errors text) then
        (let limit = length_text text - offset_text text
         in if use_ascii \<and> coalesce then
              (case buffer_text text of
                 None \<Rightarrow> (0, text)
               | Some buffer \<Rightarrow>
                  (let (points, limit) =
                         stepBYTE_loop buffer count 0 limit (unat (offset_text text)) True
                   in (points, text\<lparr>offset_text := length_text text - limit\<rparr>)))
            else
              (let points = (if count \<le> limit then count else limit)
               in (points, text\<lparr>offset_text := offset_text text + points\<rparr>)))
      else (0, text))"

function stepUTF16_loop ::
  "uint8_t list \<Rightarrow> uint32_t \<Rightarrow> bool \<Rightarrow> uint32_t \<Rightarrow> uint32_t \<Rightarrow> nat \<Rightarrow> bool
     \<Rightarrow> uint32_t \<times> uint32_t" where
  "stepUTF16_loop buffer count le points limit at pairing =
     (if points < count \<and> limit \<ge> 2 then
        (let unicode =
               (if le then push_bit 8 (ucast (buffer ! (at + 1))) + ucast (buffer ! at)
                else push_bit 8 (ucast (buffer ! at)) + ucast (buffer ! (at + 1))) :: unicode_t
         in if unicode AND 0xfffff800 = 0x0000d800 then
              (if unicode AND 0x00000400 = 0
               then stepUTF16_loop buffer count le (points + 1) (limit - 2) (at + 2) True
               else if pairing
               then stepUTF16_loop buffer count le (points + 1 - 1) (limit - 2) (at + 2) False
               else stepUTF16_loop buffer count le (points + 1) (limit - 2) (at + 2) pairing)
            else stepUTF16_loop buffer count le (points + 1) (limit - 2) (at + 2) False)
      else (points, limit))"
  by pat_completeness auto
termination
  by (relation "measure (\<lambda>(buffer, count, le, points, limit, at, pairing). unat limit)")
     (simp_all add: unat_sub word_le_nat_alt)

declare stepUTF16_loop.simps [simp del]

definition stepUTF16 ::
  "utf_text \<Rightarrow> uint32_t \<Rightarrow> bool \<Rightarrow> bool \<Rightarrow> uint32_t \<times> utf_text" where
  "stepUTF16 text count le use_ucs2 =
     (if count \<noteq> 0 \<and> no_error (get_errors_aligned text 1) then
        (let limit = length_text text - offset_text text
         in if use_ucs2 then
              (let points = drop_bit 1 limit;
                   points = (if points > count then count else points);
                   limit = limit - push_bit 1 points
               in (points, text\<lparr>offset_text := length_text text - limit\<rparr>))
            else
              (case buffer_text text of
                 None \<Rightarrow> (0, text)
               | Some buffer \<Rightarrow>
                  (let (points, limit) =
                         stepUTF16_loop buffer count le 0 limit (unat (offset_text text)) False
                   in (points, text\<lparr>offset_text := length_text text - limit\<rparr>))))
      else (0, text))"

function stepUTF32_loop ::
  "uint8_t list \<Rightarrow> uint32_t \<Rightarrow> bool \<Rightarrow> uint32_t \<Rightarrow> uint32_t \<Rightarrow> nat \<Rightarrow> bool
     \<Rightarrow> uint32_t \<times> uint32_t" where
  "stepUTF32_loop buffer count le points limit at pairing =
     (if points < count \<and> limit \<ge> 4 then
        (let unicode = unit32 buffer at le
         in if unicode AND 0xfffff800 = 0x0000d800 then
              (if unicode AND 0x00000400 = 0
               then stepUTF32_loop buffer count le (points + 1) (limit - 4) (at + 4) True
               else if pairing
               then stepUTF32_loop buffer count le (points + 1 - 1) (limit - 4) (at + 4) False
               else stepUTF32_loop buffer count le (points + 1) (limit - 4) (at + 4) pairing)
            else stepUTF32_loop buffer count le (points + 1) (limit - 4) (at + 4) False)
      else (points, limit))"
  by pat_completeness auto
termination
  by (relation "measure (\<lambda>(buffer, count, le, points, limit, at, pairing). unat limit)")
     (simp_all add: unat_sub word_le_nat_alt)

declare stepUTF32_loop.simps [simp del]

definition stepUTF32 ::
  "utf_text \<Rightarrow> uint32_t \<Rightarrow> bool \<Rightarrow> bool \<Rightarrow> uint32_t \<times> utf_text" where
  "stepUTF32 text count le use_cesu =
     (if count \<noteq> 0 \<and> no_error (get_errors_aligned text 3) then
        (let limit = length_text text - offset_text text
         in if use_cesu then
              (case buffer_text text of
                 None \<Rightarrow> (0, text)
               | Some buffer \<Rightarrow>
                  (let (points, limit) =
                         stepUTF32_loop buffer count le 0 limit (unat (offset_text text)) False
                   in (points, text\<lparr>offset_text := length_text text - limit\<rparr>)))
            else
              (let points = drop_bit 2 limit;
                   points = (if points > count then count else points);
                   limit = limit - push_bit 2 points
               in (points, text\<lparr>offset_text := length_text text - limit\<rparr>)))
      else (0, text))"

function stepCP1252_loop ::
  "uint8_t list \<Rightarrow> uint32_t \<Rightarrow> CP1252Strictness \<Rightarrow> uint32_t \<Rightarrow> uint32_t \<Rightarrow> nat \<Rightarrow> bool
     \<Rightarrow> uint32_t \<times> uint32_t" where
  "stepCP1252_loop buffer count strictness points limit at valid =
     (if points < count \<and> limit > 0 then
        (if fst (cp1252ToUnicode (buffer ! at) strictness)
         then stepCP1252_loop buffer count strictness (points + 1) (limit - 1) (at + 1) True
         else if valid
         then stepCP1252_loop buffer count strictness (points + 1) (limit - 1) (at + 1) False
         else stepCP1252_loop buffer count strictness points (limit - 1) (at + 1) valid)
      else (points, limit))"
  by pat_completeness auto
termination
  by (relation "measure (\<lambda>(buffer, count, strictness, points, limit, at, valid). unat limit)")
     (simp_all add: unat_minus_one unat_gt_0 word_greater_zero_iff)

declare stepCP1252_loop.simps [simp del]

definition stepCP1252 ::
  "utf_text \<Rightarrow> uint32_t \<Rightarrow> bool \<Rightarrow> bool \<Rightarrow> uint32_t \<times> utf_text" where
  "stepCP1252 text count strict coalesce =
     (if count \<noteq> 0 \<and> no_error (get_errors text) then
        (let limit = length_text text - offset_text text
         in if coalesce then
              (case buffer_text text of
                 None \<Rightarrow> (0, text)
               | Some buffer \<Rightarrow>
                  (let strictness = (if strict then StrictUndefined else WindowsCompatible);
                       (points, limit) =
                         stepCP1252_loop buffer count strictness 0 limit
                           (unat (offset_text text)) True
                   in (points, text\<lparr>offset_text := length_text text - limit\<rparr>)))
            else
              (let points = (if count \<le> limit then count else limit)
               in (points, text\<lparr>offset_text := offset_text text + points\<rparr>)))
      else (0, text))"

section \<open>Handler dispatch\<close>

datatype UTF_SUB_TYPE =
    UTF8 | UTF8ns | UTF8st | JUTF8 | JUTF8ns | JUTF8st
  | CESU8 | CESU8ns | CESU8st | JCESU8 | JCESU8ns | JCESU8st
  | UTF16le | UTF16be | UCS2le | UCS2be
  | UTF32le | UTF32be | UCS4le | UCS4be | CESU32le | CESU32be | CESU4le | CESU4be
  | BYTE | BYTEns | ASCII | ASCIIns | CP1252 | CP1252ns | CP1252st

text \<open>
  One concrete handler class per tag (\<open>CUTF_UTF8\<close>, ..., \<open>CUTF_CP1252st\<close>); each virtual
  method is the one-line call of the source, with its arguments in the source's order.
  \<open>stepUTF8\<close> is called with three flags, so its \<open>coalesce\<close> parameter takes the
  default \<open>true\<close> of its declaration.
\<close>

fun unitSize :: "UTF_SUB_TYPE \<Rightarrow> uint32_t" where
  "unitSize UTF8 = 1" | "unitSize UTF8ns = 1" | "unitSize UTF8st = 1"
| "unitSize JUTF8 = 1" | "unitSize JUTF8ns = 1" | "unitSize JUTF8st = 1"
| "unitSize CESU8 = 1" | "unitSize CESU8ns = 1" | "unitSize CESU8st = 1"
| "unitSize JCESU8 = 1" | "unitSize JCESU8ns = 1" | "unitSize JCESU8st = 1"
| "unitSize UTF16le = 2" | "unitSize UTF16be = 2" | "unitSize UCS2le = 2" | "unitSize UCS2be = 2"
| "unitSize UTF32le = 4" | "unitSize UTF32be = 4" | "unitSize UCS4le = 4" | "unitSize UCS4be = 4"
| "unitSize CESU32le = 4" | "unitSize CESU32be = 4" | "unitSize CESU4le = 4" | "unitSize CESU4be = 4"
| "unitSize BYTE = 1" | "unitSize BYTEns = 1" | "unitSize ASCII = 1" | "unitSize ASCIIns = 1"
| "unitSize CP1252 = 1" | "unitSize CP1252ns = 1" | "unitSize CP1252st = 1"

fun len :: "UTF_SUB_TYPE \<Rightarrow> unicode_t \<Rightarrow> uint32_t" where
  "len UTF8 unicode = lenUTF8 unicode False False"
| "len UTF8ns unicode = lenUTF8 unicode False False"
| "len UTF8st unicode = lenUTF8 unicode False False"
| "len JUTF8 unicode = lenUTF8 unicode False True"
| "len JUTF8ns unicode = lenUTF8 unicode False True"
| "len JUTF8st unicode = lenUTF8 unicode False True"
| "len CESU8 unicode = lenUTF8 unicode True False"
| "len CESU8ns unicode = lenUTF8 unicode True False"
| "len CESU8st unicode = lenUTF8 unicode True False"
| "len JCESU8 unicode = lenUTF8 unicode True True"
| "len JCESU8ns unicode = lenUTF8 unicode True True"
| "len JCESU8st unicode = lenUTF8 unicode True True"
| "len UTF16le unicode = lenUTF16 unicode False"
| "len UTF16be unicode = lenUTF16 unicode False"
| "len UCS2le unicode = lenUTF16 unicode True"
| "len UCS2be unicode = lenUTF16 unicode True"
| "len UTF32le unicode = lenUTF32 unicode False False"
| "len UTF32be unicode = lenUTF32 unicode False False"
| "len UCS4le unicode = lenUTF32 unicode False True"
| "len UCS4be unicode = lenUTF32 unicode False True"
| "len CESU32le unicode = lenUTF32 unicode True False"
| "len CESU32be unicode = lenUTF32 unicode True False"
| "len CESU4le unicode = lenUTF32 unicode True True"
| "len CESU4be unicode = lenUTF32 unicode True True"
| "len BYTE unicode = (if unicode AND 0x000000ff = unicode then 1 else 0)"
| "len BYTEns unicode = (if unicode AND 0x000000ff = unicode then 1 else 0)"
| "len ASCII unicode = (if unicode AND 0x0000007f = unicode then 1 else 0)"
| "len ASCIIns unicode = (if unicode AND 0x0000007f = unicode then 1 else 0)"
| "len CP1252 unicode = (if unicode AND 0x0000007f = unicode then 1 else 0)"
| "len CP1252ns unicode = (if unicode AND 0x0000007f = unicode then 1 else 0)"
| "len CP1252st unicode = (if unicode AND 0x0000007f = unicode then 1 else 0)"

fun get :: "UTF_SUB_TYPE \<Rightarrow> utf_text \<Rightarrow> cp_errors \<times> unicode_t \<times> uint32_t" where
  "get UTF8 text = decodeUTF8 text False False False True"
| "get UTF8ns text = decodeUTF8 text False False False False"
| "get UTF8st text = decodeUTF8 text False False True False"
| "get JUTF8 text = decodeUTF8 text False True False True"
| "get JUTF8ns text = decodeUTF8 text False True False False"
| "get JUTF8st text = decodeUTF8 text False True True False"
| "get CESU8 text = decodeUTF8 text True False False True"
| "get CESU8ns text = decodeUTF8 text True False False False"
| "get CESU8st text = decodeUTF8 text True False True False"
| "get JCESU8 text = decodeUTF8 text True True False True"
| "get JCESU8ns text = decodeUTF8 text True True False False"
| "get JCESU8st text = decodeUTF8 text True True True False"
| "get UTF16le text = decodeUTF16 text True False"
| "get UTF16be text = decodeUTF16 text False False"
| "get UCS2le text = decodeUTF16 text True True"
| "get UCS2be text = decodeUTF16 text False True"
| "get UTF32le text = decodeUTF32 text True False False"
| "get UTF32be text = decodeUTF32 text False False False"
| "get UCS4le text = decodeUTF32 text True False True"
| "get UCS4be text = decodeUTF32 text False False True"
| "get CESU32le text = decodeUTF32 text True True False"
| "get CESU32be text = decodeUTF32 text False True False"
| "get CESU4le text = decodeUTF32 text True True True"
| "get CESU4be text = decodeUTF32 text False True True"
| "get BYTE text = decodeBYTE text False True"
| "get BYTEns text = decodeBYTE text False False"
| "get ASCII text = decodeBYTE text True True"
| "get ASCIIns text = decodeBYTE text True False"
| "get CP1252 text = decodeCP1252 text False True"
| "get CP1252ns text = decodeCP1252 text False False"
| "get CP1252st text = decodeCP1252 text True False"

fun set :: "UTF_SUB_TYPE \<Rightarrow> utf_text \<Rightarrow> unicode_t \<Rightarrow> cp_errors \<times> utf_text \<times> uint32_t" where
  "set UTF8 text unicode = encodeUTF8 text unicode False False"
| "set UTF8ns text unicode = encodeUTF8 text unicode False False"
| "set UTF8st text unicode = encodeUTF8 text unicode False False"
| "set JUTF8 text unicode = encodeUTF8 text unicode False True"
| "set JUTF8ns text unicode = encodeUTF8 text unicode False True"
| "set JUTF8st text unicode = encodeUTF8 text unicode False True"
| "set CESU8 text unicode = encodeUTF8 text unicode True False"
| "set CESU8ns text unicode = encodeUTF8 text unicode True False"
| "set CESU8st text unicode = encodeUTF8 text unicode True False"
| "set JCESU8 text unicode = encodeUTF8 text unicode True True"
| "set JCESU8ns text unicode = encodeUTF8 text unicode True True"
| "set JCESU8st text unicode = encodeUTF8 text unicode True True"
| "set UTF16le text unicode = encodeUTF16 text unicode True False"
| "set UTF16be text unicode = encodeUTF16 text unicode False False"
| "set UCS2le text unicode = encodeUTF16 text unicode True True"
| "set UCS2be text unicode = encodeUTF16 text unicode False True"
| "set UTF32le text unicode = encodeUTF32 text unicode True False False"
| "set UTF32be text unicode = encodeUTF32 text unicode False False False"
| "set UCS4le text unicode = encodeUTF32 text unicode True False True"
| "set UCS4be text unicode = encodeUTF32 text unicode False False True"
| "set CESU32le text unicode = encodeUTF32 text unicode True True False"
| "set CESU32be text unicode = encodeUTF32 text unicode False True False"
| "set CESU4le text unicode = encodeUTF32 text unicode True True True"
| "set CESU4be text unicode = encodeUTF32 text unicode False True True"
| "set BYTE text unicode = encodeBYTE text unicode False"
| "set BYTEns text unicode = encodeBYTE text unicode False"
| "set ASCII text unicode = encodeBYTE text unicode True"
| "set ASCIIns text unicode = encodeBYTE text unicode True"
| "set CP1252 text unicode = encodeCP1252 text unicode False"
| "set CP1252ns text unicode = encodeCP1252 text unicode False"
| "set CP1252st text unicode = encodeCP1252 text unicode True"

fun step :: "UTF_SUB_TYPE \<Rightarrow> utf_text \<Rightarrow> uint32_t \<Rightarrow> (uint32_t \<times> utf_text) option" where
  "step UTF8 text count = stepUTF8 text count False False True True"
| "step UTF8ns text count = stepUTF8 text count False False False True"
| "step UTF8st text count = stepUTF8 text count False True False True"
| "step JUTF8 text count = stepUTF8 text count False False True True"
| "step JUTF8ns text count = stepUTF8 text count False False False True"
| "step JUTF8st text count = stepUTF8 text count False True False True"
| "step CESU8 text count = stepUTF8 text count True False True True"
| "step CESU8ns text count = stepUTF8 text count True False False True"
| "step CESU8st text count = stepUTF8 text count True True False True"
| "step JCESU8 text count = stepUTF8 text count True False True True"
| "step JCESU8ns text count = stepUTF8 text count True False False True"
| "step JCESU8st text count = stepUTF8 text count True True False True"
| "step UTF16le text count = Some (stepUTF16 text count True False)"
| "step UTF16be text count = Some (stepUTF16 text count False False)"
| "step UCS2le text count = Some (stepUTF16 text count True True)"
| "step UCS2be text count = Some (stepUTF16 text count False True)"
| "step UTF32le text count = Some (stepUTF32 text count True False)"
| "step UTF32be text count = Some (stepUTF32 text count False False)"
| "step UCS4le text count = Some (stepUTF32 text count True False)"
| "step UCS4be text count = Some (stepUTF32 text count False False)"
| "step CESU32le text count = Some (stepUTF32 text count True True)"
| "step CESU32be text count = Some (stepUTF32 text count False True)"
| "step CESU4le text count = Some (stepUTF32 text count True True)"
| "step CESU4be text count = Some (stepUTF32 text count False True)"
| "step BYTE text count = Some (stepBYTE text count False True)"
| "step BYTEns text count = Some (stepBYTE text count False False)"
| "step ASCII text count = Some (stepBYTE text count True True)"
| "step ASCIIns text count = Some (stepBYTE text count True False)"
| "step CP1252 text count = Some (stepCP1252 text count False True)"
| "step CP1252ns text count = Some (stepCP1252 text count False False)"
| "step CP1252st text count = Some (stepCP1252 text count True False)"

text \<open>\<open>IUTFTK::read\<close>: \<open>get\<close>, then \<open>text.offset += bytes\<close>.\<close>

definition read :: "UTF_SUB_TYPE \<Rightarrow> utf_text \<Rightarrow> cp_errors \<times> unicode_t \<times> utf_text" where
  "read tag text =
     (let (errors, unicode, bytes) = get tag text
      in (errors, unicode, text\<lparr>offset_text := offset_text text + bytes\<rparr>))"

section \<open>Evaluation\<close>

lemmas loop_simps =
  fetch_coalesce.simps fetch_continue.simps byte_coalesce.simps cp1252_coalesce.simps
  step_continuation.simps step_trailing.simps stepBYTE_loop.simps stepUTF16_loop.simps
  stepUTF32_loop.simps stepCP1252_loop.simps stepUTF8_loop.simps

lemmas eval_defs =
  loop_simps decodeUTF8_def decodeUTF8_classify_def fetchUTF8_def lead_length_def fetch_truncate_def
  fetch_finish_def get_errors_def get_errors_aligned_def
  no_error_def error_def any_of_def none_of_def any_set_def
  ErrorsMask_def NonReservedMask_def ReservedMask_def bits_defs Let_def clear_def
  set_byte_index_def ByteIndexMask_def


section \<open>Diagnostics: algebra of the predicates\<close>

lemma any_of_or: "any_of (a OR b) m = (any_of a m \<or> any_of b m)"
  by (auto simp add: any_of_def bit.conj_disj_distrib2 or_eq_0_iff)

lemma any_of_0 [simp]: "\<not> any_of 0 m"
  by (simp add: any_of_def)

lemma any_of_xor_disjoint: "b AND m = 0 \<Longrightarrow> any_of (a XOR b) m = any_of a m"
  by (simp add: any_of_def bit.conj_xor_distrib2)

lemma disjoint_bits: "x AND m = 0 \<Longrightarrow> \<not> (bit x n \<and> bit m n)" for x m :: "'a::len word"
  by (metis bit_and_iff bit_0_eq bot_apply bot_bool_def)

lemma and_not_disjoint: "x AND m = 0 \<Longrightarrow> (a AND NOT x) AND m = a AND m" for x m :: "'a::len word"
  by (rule bit_eqI) (auto simp: bit_and_iff bit_not_iff dest: disjoint_bits)

lemma any_of_clear_disjoint: "x AND m = 0 \<Longrightarrow> any_of (clear a x) m = any_of a m"
  unfolding any_of_def clear_def by (simp add: and_not_disjoint)

lemma any_of_set_byte_index:
  "ByteIndexMask AND m = 0 \<Longrightarrow> any_of (set_byte_index a i) m = any_of a m"
proof -
  assume d: "ByteIndexMask AND m = 0"
  have 1: "(a AND NOT ByteIndexMask) AND m = a AND m" by (rule and_not_disjoint [OF d])
  have "(i AND ByteIndexMask) AND m = i AND (ByteIndexMask AND m)" by (simp only: and.assoc)
  then have 2: "(i AND ByteIndexMask) AND m = 0" by (simp add: d)
  show ?thesis
    unfolding any_of_def set_byte_index_def bit.conj_disj_distrib2 1 2 by simp
qed

lemma error_or [simp]: "error (a OR b) = (error a \<or> error b)"
  by (simp add: error_def any_of_or)

lemma error_0 [simp]: "\<not> error 0"
  by (simp add: error_def)

lemma error_set_byte_index [simp]: "error (set_byte_index a i) = error a"
  unfolding error_def
  by (rule any_of_set_byte_index) (simp add: ByteIndexMask_def ErrorsMask_def bits_defs)

lemma error_bits [simp]:
  "error Failed" "error NotDecodable" "error ReadTruncated" "error DisallowedByte"
  "error UnexpectedByte" "error NotEncodable" "error NotEnoughBits" "error WriteOverflow"
  "error InvalidBuffer" "error InvalidOffset" "error MisalignedOffset" "error MisalignedLength"
  "\<not> error ReadExhausted" "\<not> error ExtendedUTF8" "\<not> error ModifiedUTF8"
  "\<not> error OverlongUTF8" "\<not> error ExtendedUCS4" "\<not> error NonCharacter"
  "\<not> error Supplementary" "\<not> error LowSurrogate" "\<not> error HighSurrogate"
  "\<not> error TruncatedPair" "\<not> error SurrogatePair" "\<not> error DelimitString"
  "\<not> error IrregularForm" "\<not> error InvalidPoint"
  by (simp_all add: error_def any_of_def ErrorsMask_def bits_defs)

lemma error_xor_pair [simp]:
  "error (a XOR (SurrogatePair OR Supplementary OR HighSurrogate)) = error a"
  "error (a XOR (SurrogatePair OR Supplementary OR HighSurrogate OR IrregularForm)) = error a"
  unfolding error_def
  by (rule any_of_xor_disjoint, simp add: ErrorsMask_def bits_defs)+

lemma get_errors_ok:
  "no_error (get_errors text) \<Longrightarrow>
     get_errors text = 0 \<and> buffer_text text \<noteq> None \<and> offset_text text \<le> length_text text"
  by (auto simp: get_errors_def no_error_def error_def any_of_def ErrorsMask_def bits_defs
      Let_def split: if_splits)

section \<open>Exhaustion of a byte\<close>

lemma lt_16_cases:
  fixes k :: nat
  assumes "k < 16"
  shows "k \<in> {15, 14, 13, 12, 11, 10, 9, 8} \<or> k \<in> {7, 6, 5, 4, 3, 2, 1, 0}"
  using assms by simp arith

lemma all_lt_16:
  "(\<forall>n<16::nat. Q n) =
     (Q 0 \<and> Q 1 \<and> Q 2 \<and> Q 3 \<and> Q 4 \<and> Q 5 \<and> Q 6 \<and> Q 7 \<and>
      Q 8 \<and> Q 9 \<and> Q 10 \<and> Q 11 \<and> Q 12 \<and> Q 13 \<and> Q 14 \<and> Q 15)"
  (is "?l = ?r")
proof
  assume ?l then show ?r by simp
next
  assume r: ?r
  show ?l
  proof (intro allI impI)
    fix n :: nat assume "n < 16"
    from lt_16_cases [OF this] r show "Q n" by auto
  qed
qed

lemma byte_exhaust:
  assumes "\<forall>hi<16. \<forall>lo<16. P (word_of_nat (16 * hi + lo) :: uint8_t)"
  shows "P b"
proof -
  have "unat b < 256" using unsigned_less [of b, where ?'a = nat] by simp
  then have "unat b div 16 < 16" "unat b mod 16 < 16" by simp_all
  with assms have "P (word_of_nat (16 * (unat b div 16) + unat b mod 16))" by blast
  then show ?thesis by simp
qed

section \<open>fetchUTF8\<close>

lemma lead_length_fst:
  fixes byte :: uint8_t
  assumes "\<not> byte + 2 \<le> 0xc1"
  shows "fst (lead_length byte) =
         (if byte \<le> 0xdf then 2 else if byte \<le> 0xef then 3 else if byte \<le> 0xf7 then 4
          else if byte \<le> 0xfb then 5 else 6)"
proof -
  define P where "P = (\<lambda>byte :: uint8_t. \<not> byte + 2 \<le> 0xc1 \<longrightarrow>
     fst (lead_length byte) =
         (if byte \<le> 0xdf then 2 else if byte \<le> 0xef then 3 else if byte \<le> 0xf7 then 4
          else if byte \<le> 0xfb then 5 else 6))"
  have "P byte"
    apply (rule byte_exhaust [of P])
    apply (simp only: all_lt_16)
    apply (simp add: P_def lead_length_def)
    done
  with assms show ?thesis by (simp add: P_def)
qed

lemma lead_length_nonzero: "\<not> byte + 2 \<le> 0xc1 \<Longrightarrow> fst (lead_length byte) \<noteq> 0"
  by (simp add: lead_length_fst)

lemma lead_length_no_error [simp]: "\<not> error (snd (lead_length byte))"
  by (simp add: lead_length_def)

lemma fetch_truncate_nonzero:
  "sz \<noteq> 0 \<Longrightarrow> fst ce \<noteq> 0 \<Longrightarrow> fst (fetch_truncate sz ce) \<noteq> 0"
  by (cases ce) (simp add: fetch_truncate_def)

lemma fetch_finish_bytes [simp]: "snd (snd (fetch_finish unicode cve)) = fst cve"
  by (cases cve) (simp add: fetch_finish_def Let_def)

lemma fetch_finish_error [simp]: "error (fst (fetch_finish unicode cve)) = error (snd (snd cve))"
  by (cases cve) (simp add: fetch_finish_def Let_def no_error_def)

lemma fetch_finish_unicode:
  "error (snd (snd cve)) \<Longrightarrow> fst (snd (fetch_finish unicode cve)) = unicode"
  by (cases cve) (simp add: fetch_finish_def Let_def no_error_def)

lemma less_succ_nonzero: "index < count \<Longrightarrow> index + 1 \<noteq> 0" for index count :: "'a::len word"
proof
  assume lt: "index < count" and z: "index + 1 = 0"
  from z have "index = - 1" by (simp add: eq_neg_iff_add_eq_0)
  with lt have "- 1 < count" by simp
  moreover have "count \<le> - 1" by simp
  ultimately show False by simp
qed

lemma fetch_continue_count:
  "index \<noteq> 0 \<Longrightarrow> count \<noteq> 0 \<Longrightarrow> fst (fetch_continue buffer base index count val errors) \<noteq> 0"
proof (induction buffer base index count val errors rule: fetch_continue.induct)
  case (1 buffer base index count val errors)
  show ?case
  proof (cases "index < count")
    case True
    then have "index + 1 \<noteq> 0" by (rule less_succ_nonzero)
    with 1 True show ?thesis
      by (subst fetch_continue.simps) (simp add: Let_def)
  next
    case False
    with 1 show ?thesis by (subst fetch_continue.simps) simp
  qed
qed

lemma fetch_coalesce_count:
  "index \<noteq> 0 \<Longrightarrow> count \<noteq> 0 \<Longrightarrow> fetch_coalesce buffer base index count \<noteq> 0"
proof (induction buffer base index count rule: fetch_coalesce.induct)
  case (1 buffer base index count)
  show ?case
  proof (cases "index < count")
    case True
    then have "index + 1 \<noteq> 0" by (rule less_succ_nonzero)
    with 1 True show ?thesis
      by (subst fetch_coalesce.simps) (simp add: Let_def)
  next
    case False
    with 1 show ?thesis by (subst fetch_coalesce.simps) simp
  qed
qed


lemma fetchUTF8_exhausted: "sz < 1 \<Longrightarrow> fetchUTF8 buffer base sz coalesce = (ReadExhausted, 0, 0)"
  by (simp add: fetchUTF8_def)

lemma fetchUTF8_bytes_nonzero:
  assumes "\<not> sz < 1"
  shows "snd (snd (fetchUTF8 buffer base sz coalesce)) \<noteq> 0"
proof -
  from assms have sz: "sz \<noteq> 0" by (simp add: word_less_1)
  show ?thesis
  proof (cases "buffer ! base + 2 \<le> 0xc1")
    case True
    with assms sz show ?thesis
      by (simp add: fetchUTF8_def Let_def fetch_coalesce_count)
  next
    case False
    obtain count errors where t: "fetch_truncate sz (lead_length (buffer ! base)) = (count, errors)"
      by (cases "fetch_truncate sz (lead_length (buffer ! base))")
    have "fst (fetch_truncate sz (lead_length (buffer ! base))) \<noteq> 0"
      by (rule fetch_truncate_nonzero [OF sz lead_length_nonzero [OF False]])
    with t have "count \<noteq> 0" by simp
    then show ?thesis
      using assms False by (simp add: fetchUTF8_def Let_def t fetch_continue_count)
  qed
qed

lemma fetchUTF8_error_unicode:
  assumes "error (fst (fetchUTF8 buffer base sz coalesce))"
  shows "fst (snd (fetchUTF8 buffer base sz coalesce)) = ucast (buffer ! base)"
proof (cases "sz < 1")
  case True
  with assms show ?thesis by (simp add: fetchUTF8_exhausted)
next
  case sz: False
  show ?thesis
  proof (cases "buffer ! base + 2 \<le> 0xc1")
    case True
    with sz show ?thesis by (simp add: fetchUTF8_def Let_def)
  next
    case False
    obtain count errors where t: "fetch_truncate sz (lead_length (buffer ! base)) = (count, errors)"
      by (cases "fetch_truncate sz (lead_length (buffer ! base))")
    from assms sz False show ?thesis
      by (simp add: fetchUTF8_def Let_def t fetch_finish_unicode)
  qed
qed


lemma irregular_bits [simp]:
  "\<not> any_of Failed IrregularForm" "\<not> any_of NotDecodable IrregularForm"
  "\<not> any_of ReadTruncated IrregularForm" "\<not> any_of DisallowedByte IrregularForm"
  "\<not> any_of UnexpectedByte IrregularForm" "\<not> any_of ReadExhausted IrregularForm"
  "\<not> any_of ExtendedUTF8 IrregularForm" "\<not> any_of ModifiedUTF8 IrregularForm"
  "\<not> any_of OverlongUTF8 IrregularForm" "\<not> any_of ExtendedUCS4 IrregularForm"
  "\<not> any_of NonCharacter IrregularForm" "\<not> any_of Supplementary IrregularForm"
  "\<not> any_of LowSurrogate IrregularForm" "\<not> any_of HighSurrogate IrregularForm"
  "\<not> any_of TruncatedPair IrregularForm" "\<not> any_of SurrogatePair IrregularForm"
  "\<not> any_of DelimitString IrregularForm"
  by (simp_all add: any_of_def bits_defs)

lemma irregular_clear [simp]:
  "any_of (clear e ReadTruncated) IrregularForm = any_of e IrregularForm"
  by (rule any_of_clear_disjoint) (simp add: bits_defs)

lemma irregular_set_byte_index [simp]:
  "any_of (set_byte_index e i) IrregularForm = any_of e IrregularForm"
  by (rule any_of_set_byte_index) (simp add: ByteIndexMask_def bits_defs)

lemma irregular_xor [simp]:
  "any_of (e XOR (SurrogatePair OR Supplementary OR HighSurrogate)) IrregularForm
     = any_of e IrregularForm"
  by (rule any_of_xor_disjoint) (simp add: bits_defs)

lemma fetch_continue_irregular:
  "\<not> any_of errors IrregularForm \<Longrightarrow>
   \<not> any_of (snd (snd (fetch_continue buffer base index count val errors))) IrregularForm"
proof (induction buffer base index count val errors rule: fetch_continue.induct)
  case (1 buffer base index count val errors)
  then show ?case
    by (subst fetch_continue.simps) (simp add: Let_def any_of_or)
qed

lemma fetch_finish_irregular:
  "any_of (fst (fetch_finish unicode cve)) IrregularForm = any_of (snd (snd cve)) IrregularForm"
  by (cases cve) (simp add: fetch_finish_def Let_def any_of_or)

lemma fetchUTF8_irregular: "\<not> any_of (fst (fetchUTF8 buffer base sz coalesce)) IrregularForm"
proof -
  obtain count errors where t: "fetch_truncate sz (lead_length (buffer ! base)) = (count, errors)"
    by (cases "fetch_truncate sz (lead_length (buffer ! base))")
  then have "\<not> any_of errors IrregularForm"
    by (auto simp: fetch_truncate_def lead_length_def any_of_or split: if_splits)
  then show ?thesis
    by (simp add: fetchUTF8_def Let_def t any_of_or fetch_finish_irregular fetch_continue_irregular)
qed

lemma classify_no_error:
  "\<not> error errors \<Longrightarrow>
   \<not> error (fst (decodeUTF8_classify buffer base limit use_cesu errors unicode bytes))"
  by (simp add: decodeUTF8_classify_def Let_def no_error_def split: prod.splits)

lemma classify_irregular:
  "\<not> any_of errors IrregularForm \<Longrightarrow>
   \<not> any_of (fst (decodeUTF8_classify buffer base limit use_cesu errors unicode bytes)) IrregularForm"
  using fetchUTF8_irregular [of buffer "base + unat bytes" "limit - bytes" False]
  by (auto simp add: decodeUTF8_classify_def Let_def any_of_or split: prod.splits)


section \<open>Decoders: bytes consumed and scalar returned on failure\<close>


lemma word_le1_nonzero: "\<not> 1 < b \<Longrightarrow> b \<noteq> 0 \<Longrightarrow> b = 1" for b :: uint32_t
  by (simp add: word_less_nat_alt unat_eq_zero [symmetric] word_unat_eq_iff del: unat_eq_zero)


lemma byte_coalesce_count:
  "index \<noteq> 0 \<Longrightarrow> count \<noteq> 0 \<Longrightarrow> byte_coalesce buffer base index count \<noteq> 0"
proof (induction buffer base index count rule: byte_coalesce.induct)
  case (1 buffer base index count)
  show ?case
  proof (cases "index < count")
    case True
    then have "index + 1 \<noteq> 0" by (rule less_succ_nonzero)
    with 1 True show ?thesis
      by (subst byte_coalesce.simps) (simp add: Let_def)
  next
    case False
    with 1 show ?thesis by (subst byte_coalesce.simps) simp
  qed
qed

lemma cp1252_coalesce_count:
  "index \<noteq> 0 \<Longrightarrow> count \<noteq> 0 \<Longrightarrow>
   fst (cp1252_coalesce buffer base strictness index count unicode) \<noteq> 0"
proof (induction buffer base strictness index count unicode rule: cp1252_coalesce.induct)
  case (1 buffer base strictness index count unicode)
  show ?case
  proof (cases "index < count")
    case True
    then have "index + 1 \<noteq> 0" by (rule less_succ_nonzero)
    with 1 True show ?thesis
      by (subst cp1252_coalesce.simps) (simp add: Let_def split: prod.splits)
  next
    case False
    with 1 show ?thesis by (subst cp1252_coalesce.simps) simp
  qed
qed

lemma decodeBYTE_error_bytes:
  assumes ok: "no_error (get_errors text)"
    and bad: "error (fst (decodeBYTE text use_ascii coalesce))"
  shows "snd (snd (decodeBYTE text use_ascii coalesce)) \<noteq> 0"
proof -
  from get_errors_ok [OF ok] obtain buffer where
    g: "get_errors text = 0" and b: "buffer_text text = Some buffer" by auto
  define limit where "limit = length_text text - offset_text text"
  show ?thesis
  proof (cases "limit < 1")
    case True
    then have "limit = 0" by (simp add: word_less_1)
    with bad show ?thesis
      by (simp add: decodeBYTE_def g b limit_def [symmetric] no_error_def Let_def)
  next
    case False
    then have "limit \<noteq> 0" by (simp add: word_less_1)
    then have "byte_coalesce buffer (unat (offset_text text)) 1 limit \<noteq> 0"
      by (intro byte_coalesce_count) simp_all
    with False show ?thesis
      by (simp add: decodeBYTE_def g b limit_def [symmetric] no_error_def Let_def)
  qed
qed

lemma decodeCP1252_error_bytes:
  assumes ok: "no_error (get_errors text)"
    and bad: "error (fst (decodeCP1252 text strict coalesce))"
  shows "snd (snd (decodeCP1252 text strict coalesce)) \<noteq> 0"
proof -
  from get_errors_ok [OF ok] obtain buffer where
    g: "get_errors text = 0" and b: "buffer_text text = Some buffer" by auto
  define limit where "limit = length_text text - offset_text text"
  show ?thesis
  proof (cases "limit < 1")
    case True
    then have "limit = 0" by (simp add: word_less_1)
    with bad show ?thesis
      by (simp add: decodeCP1252_def g b limit_def [symmetric] no_error_def Let_def)
  next
    case False
    then have "limit \<noteq> 0" by (simp add: word_less_1)
    define strictness where "strictness = (if strict then StrictUndefined else WindowsCompatible)"
    obtain good u where cp:
      "cp1252ToUnicode (buffer ! unat (offset_text text)) strictness = (good, u)"
      by (cases "cp1252ToUnicode (buffer ! unat (offset_text text)) strictness")
    obtain cnt u' where cc:
      "cp1252_coalesce buffer (unat (offset_text text)) strictness 1 limit u = (cnt, u')"
      by (cases "cp1252_coalesce buffer (unat (offset_text text)) strictness 1 limit u")
    from \<open>limit \<noteq> 0\<close>
    have "fst (cp1252_coalesce buffer (unat (offset_text text)) strictness 1 limit u) \<noteq> 0"
      by (intro cp1252_coalesce_count) simp_all
    with cc have "cnt \<noteq> 0" by simp
    with False show ?thesis
      by (simp add: decodeCP1252_def g b limit_def [symmetric] strictness_def [symmetric]
          no_error_def Let_def cp cc)
  qed
qed

lemma decodeUTF8_error_bytes:
  assumes ok: "no_error (get_errors text)"
    and bad: "error (fst (decodeUTF8 text use_cesu use_java strict coalesce))"
  shows "snd (snd (decodeUTF8 text use_cesu use_java strict coalesce)) \<noteq> 0"
proof -
  from get_errors_ok [OF ok] obtain buffer where
    g: "get_errors text = 0" and b: "buffer_text text = Some buffer" by auto
  define base where "base = unat (offset_text text)"
  define limit where "limit = length_text text - offset_text text"
  define co where "co = (coalesce \<and> \<not> strict)"
  obtain fe u n where f: "fetchUTF8 buffer base limit co = (fe, u, n)"
    by (cases "fetchUTF8 buffer base limit co")
  show ?thesis
  proof (cases "error fe")
    case True
    have "\<not> limit < 1"
    proof
      assume "limit < 1"
      from fetchUTF8_exhausted [OF this, of buffer base co] f True show False by simp
    qed
    from fetchUTF8_bytes_nonzero [OF this, of buffer base co] f have "n \<noteq> 0" by simp
    with True show ?thesis
      by (auto simp: decodeUTF8_def g b f base_def [symmetric] limit_def [symmetric]
          co_def [symmetric] no_error_def split: if_splits)
  next
    case False
    obtain e2 u2 n2 where c: "decodeUTF8_classify buffer base limit use_cesu fe u n = (e2, u2, n2)"
      by (cases "decodeUTF8_classify buffer base limit use_cesu fe u n")
    from classify_no_error [OF False, of buffer base limit use_cesu u n] c
    have e2: "\<not> error e2" by simp
    from bad False e2 show ?thesis
      by (auto simp: decodeUTF8_def g b f c base_def [symmetric] limit_def [symmetric]
          co_def [symmetric] no_error_def Let_def split: if_splits)
  qed
qed


lemma get_errors_aligned_ok:
  assumes "no_error (get_errors_aligned text m)"
  shows "get_errors_aligned text m = 0 \<and> no_error (get_errors text) \<and>
         offset_text text AND m = 0 \<and> length_text text AND m = 0"
  using assms get_errors_ok [of "text"]
  by (auto simp: get_errors_aligned_def Let_def no_error_def split: if_splits)

lemma aligned_diff:
  fixes a b :: uint32_t
  assumes "a AND mask n = 0" "b AND mask n = 0"
  shows "(a - b) AND mask n = 0"
  using mask_eqs(8) [of a n b] assms by simp

lemma aligned_small:
  fixes x :: uint32_t
  assumes "x AND mask n = 0" "x < 2 ^ n"
  shows "x = 0"
  using less_mask_eq [OF assms(2)] assms(1) by simp

lemma decodeUTF16_no_error:
  assumes ok: "no_error (get_errors_aligned text 1)"
  shows "\<not> error (fst (decodeUTF16 text le use_ucs2))"
proof -
  from get_errors_aligned_ok [OF ok] have g: "get_errors_aligned text 1 = 0"
    and a: "offset_text text AND mask 1 = 0" "length_text text AND mask 1 = 0"
    by (simp_all add: mask_eq_exp_minus_1)
  define limit where "limit = length_text text - offset_text text"
  from aligned_diff [OF a(2) a(1)] have "limit AND mask 1 = 0" by (simp add: limit_def)
  from aligned_small [OF this] have small: "limit < 2 \<Longrightarrow> limit = 0" by simp
  show ?thesis
    using small
    by (auto simp: decodeUTF16_def g limit_def [symmetric] no_error_def Let_def
        split: option.splits)
qed

lemma decodeUTF32_no_error:
  assumes ok: "no_error (get_errors_aligned text 3)"
  shows "\<not> error (fst (decodeUTF32 text le use_cesu use_ucs4))"
proof -
  from get_errors_aligned_ok [OF ok] have g: "get_errors_aligned text 3 = 0"
    and a: "offset_text text AND mask 2 = 0" "length_text text AND mask 2 = 0"
    by (simp_all add: mask_eq_exp_minus_1)
  define limit where "limit = length_text text - offset_text text"
  from aligned_diff [OF a(2) a(1)] have "limit AND mask 2 = 0" by (simp add: limit_def)
  from aligned_small [OF this] have small: "limit < 4 \<Longrightarrow> limit = 0" by simp
  show ?thesis
    using small
    by (auto simp: decodeUTF32_def g limit_def [symmetric] no_error_def Let_def
        split: option.splits)
qed

lemma get_errors_aligned_0: "get_errors_aligned text 0 = get_errors text"
  by (simp add: get_errors_aligned_def)


lemma get_error_bytes:
  assumes "no_error (get_errors_aligned text (unitSize tag - 1))"
    and "error (fst (get tag text))"
  shows "snd (snd (get tag text)) \<noteq> 0"
  using assms
  by (cases tag)
     (simp_all add: get_errors_aligned_0 decodeUTF8_error_bytes decodeBYTE_error_bytes
        decodeCP1252_error_bytes decodeUTF16_no_error decodeUTF32_no_error)


lemma decodeUTF8_error_unicode:
  assumes ok: "no_error (get_errors text)"
    and b: "buffer_text text = Some buffer"
    and bad: "error (fst (decodeUTF8 text use_cesu use_java strict coalesce))"
  shows "fst (snd (decodeUTF8 text use_cesu use_java strict coalesce))
           = ucast (buffer ! unat (offset_text text))"
proof -
  from get_errors_ok [OF ok] have g: "get_errors text = 0" by simp
  define base where "base = unat (offset_text text)"
  define limit where "limit = length_text text - offset_text text"
  define co where "co = (coalesce \<and> \<not> strict)"
  obtain fe u n where f: "fetchUTF8 buffer base limit co = (fe, u, n)"
    by (cases "fetchUTF8 buffer base limit co")
  show ?thesis
  proof (cases "error fe")
    case True
    from fetchUTF8_error_unicode [of buffer base limit co] f True
    have "u = ucast (buffer ! base)" by simp
    with True show ?thesis
      by (auto simp: decodeUTF8_def g b f base_def [symmetric] limit_def [symmetric]
          co_def [symmetric] no_error_def split: if_splits)
  next
    case False
    obtain e2 u2 n2 where c: "decodeUTF8_classify buffer base limit use_cesu fe u n = (e2, u2, n2)"
      by (cases "decodeUTF8_classify buffer base limit use_cesu fe u n")
    from classify_no_error [OF False, of buffer base limit use_cesu u n] c
    have e2: "\<not> error e2" by simp
    from bad False e2 show ?thesis
      by (auto simp: decodeUTF8_def g b f c base_def [symmetric] limit_def [symmetric]
          co_def [symmetric] no_error_def Let_def split: if_splits)
  qed
qed

lemma decodeBYTE_error_unicode:
  assumes ok: "no_error (get_errors text)"
    and b: "buffer_text text = Some buffer"
    and bad: "error (fst (decodeBYTE text use_ascii coalesce))"
  shows "fst (snd (decodeBYTE text use_ascii coalesce)) = ucast (buffer ! unat (offset_text text))"
proof -
  from get_errors_ok [OF ok] have g: "get_errors text = 0" by simp
  from bad show ?thesis
    by (auto simp: decodeBYTE_def g b no_error_def Let_def word_less_1 split: if_splits)
qed

lemma decodeUTF16_error_zero:
  assumes bad: "error (fst (decodeUTF16 text le use_ucs2))"
  shows "decodeUTF16 text le use_ucs2 = (get_errors_aligned text 1, 0, 0) \<and>
         error (get_errors_aligned text 1)"
proof (cases "no_error (get_errors_aligned text 1)")
  case True
  from decodeUTF16_no_error [OF this] bad show ?thesis by simp
next
  case False
  then show ?thesis by (simp add: decodeUTF16_def no_error_def)
qed

lemma decodeUTF32_error_zero:
  assumes bad: "error (fst (decodeUTF32 text le use_cesu use_ucs4))"
  shows "decodeUTF32 text le use_cesu use_ucs4 = (get_errors_aligned text 3, 0, 0) \<and>
         error (get_errors_aligned text 3)"
proof (cases "no_error (get_errors_aligned text 3)")
  case True
  from decodeUTF32_no_error [OF this] bad show ?thesis by simp
next
  case False
  then show ?thesis by (simp add: decodeUTF32_def no_error_def)
qed

section \<open>The diagnostic bitset\<close>

text \<open>
  C4.  A diagnostic whose only set bits are byte-index bits should have \<open>any() == false\<close>.
  In the code \<open>ReservedMask\<close> leaves out bit 0: the diagnostic obtained from the empty one
  by \<open>set_byte_index(1)\<close> carries byte index 1 and no bit outside the byte-index field,
  and \<open>any()\<close> is true on it.
\<close>

theorem any_tests_byte_index_bit0:
  "get_byte_index (set_byte_index 0 1) = 1 \<and>
   set_byte_index 0 1 AND NOT ByteIndexMask = 0 \<and>
   any_set (set_byte_index 0 1)"
  by (simp add: any_set_def set_byte_index_def get_byte_index_def NonReservedMask_def
      ReservedMask_def ByteIndexMask_def bits_defs)

section \<open>Length functions\<close>

text \<open>
  C5 as stated fails on a surrogate: \<open>lenUTF16\<close> has no surrogate test and returns 2
  for U+D800, with or without \<open>use_ucs2\<close>.
\<close>

theorem lenUTF16_surrogate_counterexample:
  "lenUTF16 0xD800 False = 2 \<and> lenUTF16 0xD800 True = 2"
  by (simp add: lenUTF16_def)

text \<open>
  C5, amended.  \<open>lenUTF16\<close> returns 2 for every scalar up to 0xFFFF (surrogates
  included), 4 for scalars in [0x10000, 0x10FFFF] when UCS2 is disabled and 0 when it is
  enabled, and 0 for every other scalar.
\<close>

theorem lenUTF16_cases:
  "(unicode \<le> 0xFFFF \<longrightarrow> lenUTF16 unicode use_ucs2 = 2) \<and>
   (0x10000 \<le> unicode \<and> unicode \<le> 0x10FFFF \<longrightarrow>
      lenUTF16 unicode use_ucs2 = (if use_ucs2 then 0 else 4)) \<and>
   (0x10FFFF < unicode \<longrightarrow> lenUTF16 unicode use_ucs2 = 0)"
  unfolding lenUTF16_def by (auto simp: word_le_nat_alt word_less_nat_alt)

theorem lenUTF16_cases_witness:
  "lenUTF16 0xD7FF True = 2 \<and> lenUTF16 0x10000 True = 0 \<and> lenUTF16 0x10FFFF False = 4 \<and>
   lenUTF16 0x110000 False = 0"
  using lenUTF16_cases [of "0xD7FF" True] lenUTF16_cases [of "0x10000" True]
    lenUTF16_cases [of "0x10FFFF" False] lenUTF16_cases [of "0x110000" False]
  by simp

section \<open>The overlong index codec\<close>

lemma index_sub_less:
  "\<not> index < a \<Longrightarrow> index < b \<Longrightarrow> a \<le> b \<Longrightarrow> index - a < b - (a :: uint32_t)"
  by (simp add: word_less_nat_alt word_le_nat_alt unat_sub not_less)

text \<open>
  C9.  Every index below 0x04210880 is decoded by \<open>indexToOverlongUTF8\<close> to a pair
  \<open>(unicode, bytes)\<close> with \<open>bytes\<close> in 2..6 that \<open>overlongToIndexUTF8\<close> maps back to the
  index; every other index is refused.
\<close>

theorem overlong_index_roundtrip:
  "(index < 0x04210880 \<longrightarrow>
      (\<exists>unicode bytes. indexToOverlongUTF8 index = (True, unicode, bytes) \<and>
         bytes \<in> {2, 3, 4, 5, 6} \<and> overlongToIndexUTF8 unicode bytes = (True, index))) \<and>
   (0x04210880 \<le> index \<longrightarrow> indexToOverlongUTF8 index = (False, 0, 0))"
proof (intro conjI impI)
  assume "index < 0x04210880"
  then show "\<exists>unicode bytes. indexToOverlongUTF8 index = (True, unicode, bytes) \<and>
         bytes \<in> {2, 3, 4, 5, 6} \<and> overlongToIndexUTF8 unicode bytes = (True, index)"
    unfolding indexToOverlongUTF8_def overlongToIndexUTF8_def
    using index_sub_less [of index "0x80" "0x880"] index_sub_less [of index "0x880" "0x10880"]
      index_sub_less [of index "0x10880" "0x210880"]
      index_sub_less [of index "0x210880" "0x4210880"]
    by simp
next
  assume "0x04210880 \<le> index"
  then show "indexToOverlongUTF8 index = (False, 0, 0)"
    unfolding indexToOverlongUTF8_def by (auto simp: word_le_nat_alt word_less_nat_alt)
qed

theorem overlong_index_roundtrip_witness:
  "indexToOverlongUTF8 0x80 = (True, 0, 3) \<and> overlongToIndexUTF8 0 3 = (True, 0x80) \<and>
   indexToOverlongUTF8 0x0421087f = (True, 0x03ffffff, 6) \<and>
   overlongToIndexUTF8 0x03ffffff 6 = (True, 0x0421087f) \<and>
   indexToOverlongUTF8 0x04210880 = (False, 0, 0)"
  using overlong_index_roundtrip [of "0x80"] overlong_index_roundtrip [of "0x0421087f"]
    overlong_index_roundtrip [of "0x04210880"]
  by (simp add: indexToOverlongUTF8_def overlongToIndexUTF8_def)

section \<open>Concrete scenarios\<close>

text \<open>
  C8.  Under CESU, \<open>encodeUTF8\<close> writes U+1F600 as \<open>ED A0 BD ED B8 80\<close> and reports 6
  bytes; \<open>decodeUTF8\<close> under CESU reads these six bytes back as U+1F600 with 6 bytes
  consumed and the diagnostic \<open>SurrogatePair | Supplementary\<close>, which has no error bit.
  The other flags are arbitrary.
\<close>

theorem cesu8_1F600_roundtrip:
  "encodeUTF8 \<lparr>length_text = 6, offset_text = 0, buffer_text = Some [0, 0, 0, 0, 0, 0]\<rparr>
      0x1F600 True use_java
    = (Supplementary OR SurrogatePair,
       \<lparr>length_text = 6, offset_text = 0,
          buffer_text = Some [0xED, 0xA0, 0xBD, 0xED, 0xB8, 0x80]\<rparr>, 6) \<and>
   decodeUTF8 \<lparr>length_text = 6, offset_text = 0,
          buffer_text = Some [0xED, 0xA0, 0xBD, 0xED, 0xB8, 0x80]\<rparr>
      True use_java strict coalesce
    = (SurrogatePair OR Supplementary, 0x1F600, 6) \<and>
   \<not> error (SurrogatePair OR Supplementary)"
  by (simp add: eval_defs encodeUTF8_def encodeUTF8_flags_def poke_def surrogate_pair_def)

section \<open>Stepping against decoding\<close>

text \<open>
  C1.  Stepping and decoding should visit the same offsets.  The handler \<open>CUTF_JUTF8\<close>
  decodes with \<open>use_java\<close>, permissively, and steps with \<open>stepUTF8(text, count, false,
  false, true)\<close>, that is strictly and without \<open>use_java\<close>.  On the Java-modified NULL
  \<open>C0 80\<close> its \<open>get\<close> consumes 2 bytes and its \<open>step\<close> by one code point stops at
  offset 1.
\<close>

theorem JUTF8_step_differs_from_get:
  "get JUTF8 \<lparr>length_text = 2, offset_text = 0, buffer_text = Some [0xC0, 0x80]\<rparr>
     = (ModifiedUTF8, 0, 2) \<and>
   step JUTF8 \<lparr>length_text = 2, offset_text = 0, buffer_text = Some [0xC0, 0x80]\<rparr> 1
     = Some (1, \<lparr>length_text = 2, offset_text = 1, buffer_text = Some [0xC0, 0x80]\<rparr>)"
  by (simp add: eval_defs stepUTF8_def stepUTF8_loop.simps stepSeqUTF8st_def)

section \<open>Strict decoding\<close>

text \<open>
  C7.  On a cursor that passes the pre-flight (a buffer, offset within length), every
  call of \<open>decodeUTF8\<close> with the strict flag that fails or that classifies the sequence as
  an irregular form consumes exactly 1 byte, whatever the other flags.
\<close>

theorem strict_decode_one_byte:
  assumes ok: "no_error (get_errors text)"
    and dec: "decodeUTF8 text use_cesu use_java True coalesce = (errors, unicode, bytes)"
    and bad: "error errors \<or> any_of errors IrregularForm"
  shows "bytes = 1"
proof -
  from get_errors_ok [OF ok] obtain buffer where
    g: "get_errors text = 0" and b: "buffer_text text = Some buffer" by auto
  define base where "base = unat (offset_text text)"
  define limit where "limit = length_text text - offset_text text"
  obtain fe u n where f: "fetchUTF8 buffer base limit False = (fe, u, n)"
    by (cases "fetchUTF8 buffer base limit False")
  show ?thesis
  proof (cases "error fe")
    case True
    have "\<not> limit < 1"
    proof
      assume "limit < 1"
      from fetchUTF8_exhausted [OF this, of buffer base False] f True show False by simp
    qed
    from fetchUTF8_bytes_nonzero [OF this, of buffer base False] f have "n \<noteq> 0" by simp
    with dec True show ?thesis
      by (auto simp: decodeUTF8_def g b f base_def [symmetric] limit_def [symmetric] no_error_def
          word_le1_nonzero split: if_splits)
  next
    case False
    obtain e2 u2 n2 where c: "decodeUTF8_classify buffer base limit use_cesu fe u n = (e2, u2, n2)"
      by (cases "decodeUTF8_classify buffer base limit use_cesu fe u n")
    from classify_no_error [OF False, of buffer base limit use_cesu u n] c
    have e2: "\<not> error e2" by simp
    from fetchUTF8_irregular [of buffer base limit False] f
    have "\<not> any_of fe IrregularForm" by simp
    from classify_irregular [OF this, of buffer base limit use_cesu u n] c
    have i2: "\<not> any_of e2 IrregularForm" by simp
    from dec False bad e2 i2 show ?thesis
      by (auto simp: decodeUTF8_def g b f c base_def [symmetric] limit_def [symmetric] no_error_def
          Let_def split: if_splits)
  qed
qed

theorem strict_decode_one_byte_witness:
  "no_error (get_errors \<lparr>length_text = 2, offset_text = 0, buffer_text = Some [0xC0, 0x80]\<rparr>) \<and>
   error (fst (decodeUTF8 \<lparr>length_text = 2, offset_text = 0, buffer_text = Some [0xC0, 0x80]\<rparr>
                 False False True True)) \<and>
   snd (snd (decodeUTF8 \<lparr>length_text = 2, offset_text = 0, buffer_text = Some [0xC0, 0x80]\<rparr>
                 False False True True)) = 1"
proof -
  let ?t = "\<lparr>length_text = 2, offset_text = 0, buffer_text = Some [0xC0, 0x80]\<rparr>"
  let ?d = "decodeUTF8 ?t False False True True"
  have h1: "no_error (get_errors ?t)" by (simp add: eval_defs)
  have h2: "?d = (fst ?d, fst (snd ?d), snd (snd ?d))" by simp
  have h3: "error (fst ?d)" by (simp add: eval_defs)
  from h3 have h3': "error (fst ?d) \<or> any_of (fst ?d) IrregularForm" by simp
  from strict_decode_one_byte [OF h1 h2 h3'] h1 h3 show ?thesis by simp
qed

section \<open>Reading through a handler\<close>

lemma succ_unat:
  fixes index count :: "'a::len word"
  assumes "index < count"
  shows "unat (index + 1) = Suc (unat index)" "index + 1 \<le> count"
proof -
  from assms have "unat index < unat count" by (simp add: word_less_nat_alt)
  moreover have "unat count < 2 ^ LENGTH('a)" by (rule unsigned_less)
  ultimately have "Suc (unat index) < 2 ^ LENGTH('a)" by arith
  then have "unat index + unat (1 :: 'a word) < 2 ^ LENGTH('a)" by simp
  then have "unat (index + 1) = unat index + unat (1 :: 'a word)"
    by (simp only: unat_add_lem [THEN iffD1])
  then show u: "unat (index + 1) = Suc (unat index)" by simp
  with \<open>unat index < unat count\<close> show "index + 1 \<le> count" by (simp add: word_le_nat_alt)
qed

text \<open>The coalescing scan of fetchUTF8 stops at the end of the run of stray bytes.\<close>

lemma fetch_coalesce_run:
  assumes "index \<le> count"
  shows "index \<le> fetch_coalesce buffer base index count \<and>
         fetch_coalesce buffer base index count \<le> count \<and>
         (\<forall>i. unat index \<le> i \<and> i < unat (fetch_coalesce buffer base index count) \<longrightarrow>
              (buffer ! (base + i) AND 0xc0 = 0x80 \<or> 0xfe \<le> buffer ! (base + i))) \<and>
         (fetch_coalesce buffer base index count < count \<longrightarrow>
            \<not> (buffer ! (base + unat (fetch_coalesce buffer base index count)) AND 0xc0 = 0x80 \<or>
               0xfe \<le> buffer ! (base + unat (fetch_coalesce buffer base index count))))"
  using assms
proof (induction buffer base index count rule: fetch_coalesce.induct)
  case (1 buffer base index count)
  show ?case
  proof (cases "index < count")
    case False
    then have e: "fetch_coalesce buffer base index count = count"
      by (subst fetch_coalesce.simps) simp
    from False 1(2) have "index = count" by simp
    then show ?thesis unfolding e by auto
  next
    case True
    note s = succ_unat [OF True]
    show ?thesis
    proof (cases "buffer ! (base + unat index) AND 0xc0 \<noteq> 0x80 \<and> buffer ! (base + unat index) < 0xfe")
      case stop: True
      then have e: "fetch_coalesce buffer base index count = index"
        using True by (subst fetch_coalesce.simps) (simp add: Let_def)
      from stop True show ?thesis unfolding e by (auto simp add: not_le)
    next
      case go: False
      then have e: "fetch_coalesce buffer base index count
                      = fetch_coalesce buffer base (index + 1) count"
        using True by (subst fetch_coalesce.simps) (auto simp add: Let_def)
      from go have st: "buffer ! (base + unat index) AND 0xc0 = 0x80 \<or>
                        0xfe \<le> buffer ! (base + unat index)" by (auto simp add: not_less)
      from 1(1) [OF True refl _ s(2)] go
      have ih: "index + 1 \<le> fetch_coalesce buffer base (index + 1) count \<and>
         fetch_coalesce buffer base (index + 1) count \<le> count \<and>
         (\<forall>i. unat (index + 1) \<le> i \<and> i < unat (fetch_coalesce buffer base (index + 1) count) \<longrightarrow>
              (buffer ! (base + i) AND 0xc0 = 0x80 \<or> 0xfe \<le> buffer ! (base + i))) \<and>
         (fetch_coalesce buffer base (index + 1) count < count \<longrightarrow>
            \<not> (buffer ! (base + unat (fetch_coalesce buffer base (index + 1) count)) AND 0xc0 = 0x80 \<or>
               0xfe \<le> buffer ! (base + unat (fetch_coalesce buffer base (index + 1) count))))"
        by simp
      have "index \<le> index + 1" using s(1) by (simp add: word_le_nat_alt)
      moreover from ih have "index + 1 \<le> fetch_coalesce buffer base (index + 1) count" by blast
      ultimately have a: "index \<le> fetch_coalesce buffer base (index + 1) count"
        by (rule order_trans)
      have b: "buffer ! (base + i) AND 0xc0 = 0x80 \<or> 0xfe \<le> buffer ! (base + i)"
        if "unat index \<le> i" "i < unat (fetch_coalesce buffer base (index + 1) count)" for i
      proof (cases "i = unat index")
        case True with st show ?thesis by simp
      next
        case False
        with that(1) s(1) have "unat (index + 1) \<le> i" by simp
        with ih that(2) show ?thesis by blast
      qed
      from a b ih show ?thesis unfolding e by blast
    qed
  qed
qed


text \<open>The coalescing scan of decodeBYTE stops at the end of the run of bytes above 0x7F.\<close>

lemma byte_coalesce_run:
  assumes "index \<le> count"
  shows "index \<le> byte_coalesce buffer base index count \<and>
         byte_coalesce buffer base index count \<le> count \<and>
         (\<forall>i. unat index \<le> i \<and> i < unat (byte_coalesce buffer base index count) \<longrightarrow>
              buffer ! (base + i) AND 0x80 = 0x80) \<and>
         (byte_coalesce buffer base index count < count \<longrightarrow>
            buffer ! (base + unat (byte_coalesce buffer base index count)) AND 0x80 \<noteq> 0x80)"
  using assms
proof (induction buffer base index count rule: byte_coalesce.induct)
  case (1 buffer base index count)
  show ?case
  proof (cases "index < count")
    case False
    then have e: "byte_coalesce buffer base index count = count"
      by (subst byte_coalesce.simps) simp
    from False 1(2) have "index = count" by simp
    then show ?thesis unfolding e by auto
  next
    case True
    note s = succ_unat [OF True]
    show ?thesis
    proof (cases "buffer ! (base + unat index) AND 0x80 \<noteq> 0x80")
      case stop: True
      then have e: "byte_coalesce buffer base index count = index"
        using True by (subst byte_coalesce.simps) simp
      from stop True show ?thesis unfolding e by auto
    next
      case go: False
      then have e: "byte_coalesce buffer base index count
                      = byte_coalesce buffer base (index + 1) count"
        using True by (subst byte_coalesce.simps) auto
      from go have st: "buffer ! (base + unat index) AND 0x80 = 0x80" by simp
      from 1(1) [OF True _ s(2)] go
      have ih: "index + 1 \<le> byte_coalesce buffer base (index + 1) count \<and>
         byte_coalesce buffer base (index + 1) count \<le> count \<and>
         (\<forall>i. unat (index + 1) \<le> i \<and> i < unat (byte_coalesce buffer base (index + 1) count) \<longrightarrow>
              buffer ! (base + i) AND 0x80 = 0x80) \<and>
         (byte_coalesce buffer base (index + 1) count < count \<longrightarrow>
            buffer ! (base + unat (byte_coalesce buffer base (index + 1) count)) AND 0x80 \<noteq> 0x80)"
        by simp
      have "index \<le> index + 1" using s(1) by (simp add: word_le_nat_alt)
      moreover from ih have "index + 1 \<le> byte_coalesce buffer base (index + 1) count" by blast
      ultimately have a: "index \<le> byte_coalesce buffer base (index + 1) count"
        by (rule order_trans)
      have b: "buffer ! (base + i) AND 0x80 = 0x80"
        if "unat index \<le> i" "i < unat (byte_coalesce buffer base (index + 1) count)" for i
      proof (cases "i = unat index")
        case True with st show ?thesis by simp
      next
        case False
        with that(1) s(1) have "unat (index + 1) \<le> i" by simp
        with ih that(2) show ?thesis by blast
      qed
      from a b ih show ?thesis unfolding e by blast
    qed
  qed
qed

lemma stray_byte:
  fixes b :: uint8_t
  shows "(b AND 0xc0 = 0x80 \<or> 0xfe \<le> b) = (b + 2 \<le> 0xc1 \<and> 0x7f < b)"
    and "((ucast b :: unicode_t) AND 0x80 \<noteq> 0) = (b AND 0x80 = 0x80)"
proof -
  define P where "P = (\<lambda>b :: uint8_t.
     (b AND 0xc0 = 0x80 \<or> 0xfe \<le> b) = (b + 2 \<le> 0xc1 \<and> 0x7f < b))"
  define Q where "Q = (\<lambda>b :: uint8_t.
     ((ucast b :: unicode_t) AND 0x80 \<noteq> 0) = (b AND 0x80 = 0x80))"
  have "P b"
    apply (rule byte_exhaust [of P])
    apply (simp only: all_lt_16)
    apply (simp add: P_def word_le_nat_alt word_less_nat_alt)
    done
  then show "(b AND 0xc0 = 0x80 \<or> 0xfe \<le> b) = (b + 2 \<le> 0xc1 \<and> 0x7f < b)"
    by (simp add: P_def)
  have "Q b"
    apply (rule byte_exhaust [of Q])
    apply (simp only: all_lt_16)
    apply (simp add: Q_def)
    done
  then show "((ucast b :: unicode_t) AND 0x80 \<noteq> 0) = (b AND 0x80 = 0x80)"
    by (simp add: Q_def)
qed

lemma decodeUTF8_stray:
  assumes ok: "no_error (get_errors text)"
    and buf: "buffer_text text = Some buffer"
    and some: "offset_text text < length_text text"
    and stray: "buffer ! unat (offset_text text) AND 0xc0 = 0x80 \<or>
                0xfe \<le> buffer ! unat (offset_text text)"
  shows "decodeUTF8 text use_cesu use_java False True =
           ((Failed OR NotDecodable) OR
              (if 0xfe \<le> buffer ! unat (offset_text text) then DisallowedByte else UnexpectedByte),
            ucast (buffer ! unat (offset_text text)),
            fetch_coalesce buffer (unat (offset_text text)) 1
              (length_text text - offset_text text))"
proof -
  from get_errors_ok [OF ok] have g0: "get_errors text = 0" by simp
  define limit where "limit = length_text text - offset_text text"
  from some have "unat limit = unat (length_text text) - unat (offset_text text)"
    unfolding limit_def by (simp add: unat_sub word_less_nat_alt word_le_nat_alt)
  with some have r: "(limit = 0) = False"
    by (auto simp add: word_less_nat_alt unat_eq_zero [symmetric] simp del: unat_eq_zero)
  from stray stray_byte(1) [of "buffer ! unat (offset_text text)"]
  have s: "buffer ! unat (offset_text text) + 2 \<le> 0xc1" "0x7f < buffer ! unat (offset_text text)"
    by simp_all
  have f: "fetchUTF8 buffer (unat (offset_text text)) limit True =
             ((Failed OR NotDecodable) OR
                (if 0xfe \<le> buffer ! unat (offset_text text)
                 then DisallowedByte else UnexpectedByte),
              ucast (buffer ! unat (offset_text text)),
              fetch_coalesce buffer (unat (offset_text text)) 1 limit)"
    unfolding fetchUTF8_def Let_def by (simp add: r s)
  show ?thesis
    unfolding decodeUTF8_def g0 Let_def buf limit_def [symmetric]
    by (simp add: f no_error_def)
qed

lemma decodeBYTE_stray:
  assumes ok: "no_error (get_errors text)"
    and buf: "buffer_text text = Some buffer"
    and some: "offset_text text < length_text text"
    and stray: "buffer ! unat (offset_text text) AND 0x80 = 0x80"
  shows "decodeBYTE text True True =
           (Failed OR NotDecodable OR DisallowedByte,
            ucast (buffer ! unat (offset_text text)),
            byte_coalesce buffer (unat (offset_text text)) 1
              (length_text text - offset_text text))"
proof -
  from get_errors_ok [OF ok] have g0: "get_errors text = 0" by simp
  define limit where "limit = length_text text - offset_text text"
  from some have "unat limit = unat (length_text text) - unat (offset_text text)"
    unfolding limit_def by (simp add: unat_sub word_less_nat_alt word_le_nat_alt)
  with some have r: "(limit = 0) = False"
    by (auto simp add: word_less_nat_alt unat_eq_zero [symmetric] simp del: unat_eq_zero)
  from stray stray_byte(2) [of "buffer ! unat (offset_text text)"]
  have s: "((ucast (buffer ! unat (offset_text text)) :: unicode_t) AND 0x80 = 0) = False"
    by simp
  show ?thesis
    unfolding decodeBYTE_def g0 Let_def buf limit_def [symmetric]
    by (simp add: r s no_error_def)
qed

lemma run_offsets:
  fixes off n len :: uint32_t
  assumes "off < len" "1 \<le> n" "n \<le> len - off"
    and rest: "\<forall>i. unat (1 :: uint32_t) \<le> i \<and> i < unat n \<longrightarrow> S (buffer ! (unat off + i))"
    and first: "S (buffer ! unat off)"
    and stop: "n < len - off \<longrightarrow> \<not> S (buffer ! (unat off + unat n))"
  shows "off < off + n \<and> off + n \<le> len \<and>
         (\<forall>p. unat off \<le> p \<and> p < unat (off + n) \<longrightarrow> S (buffer ! p)) \<and>
         (off + n < len \<longrightarrow> \<not> S (buffer ! unat (off + n)))"
proof -
  from assms(1) have d: "unat (len - off) = unat len - unat off"
    by (simp add: unat_sub word_less_nat_alt word_le_nat_alt)
  from assms(1) have ol: "unat off < unat len" by (simp add: word_less_nat_alt)
  from assms(3) d have nl: "unat n \<le> unat len - unat off" by (simp add: word_le_nat_alt)
  from assms(2) have n1: "1 \<le> unat n" by (simp add: word_le_nat_alt)
  have "unat len < 2 ^ LENGTH(32)" by (rule unsigned_less)
  with ol nl have "unat off + unat n < 2 ^ LENGTH(32)" by arith
  then have s: "unat (off + n) = unat off + unat n" by (simp only: unat_add_lem [THEN iffD1])
  have a: "off < off + n" using s n1 by (simp add: word_less_nat_alt)
  have b: "off + n \<le> len" using s nl ol by (simp add: word_le_nat_alt)
  have c: "S (buffer ! p)" if "unat off \<le> p" "p < unat (off + n)" for p
  proof (cases "p = unat off")
    case True with first show ?thesis by simp
  next
    case False
    with that s have "1 \<le> p - unat off" "p - unat off < unat n" by simp_all
    with rest [rule_format, of "p - unat off"]
    have "S (buffer ! (unat off + (p - unat off)))" by simp
    with that(1) show ?thesis by simp
  qed
  have e: "\<not> S (buffer ! unat (off + n))" if "off + n < len"
  proof -
    from that s d have "n < len - off" by (simp add: word_less_nat_alt)
    with stop s show ?thesis by simp
  qed
  from a b c e show ?thesis by blast
qed

lemma decodeUTF8_stray_run:
  fixes use_cesu use_java :: bool
  assumes ok: "no_error (get_errors text)"
    and buf: "buffer_text text = Some buffer"
    and some: "offset_text text < length_text text"
    and stray: "buffer ! unat (offset_text text) AND 0xc0 = 0x80 \<or>
                0xfe \<le> buffer ! unat (offset_text text)"
  defines "new \<equiv> offset_text text + snd (snd (decodeUTF8 text use_cesu use_java False True))"
  shows "error (fst (decodeUTF8 text use_cesu use_java False True)) \<and>
         offset_text text < new \<and> new \<le> length_text text \<and>
         (\<forall>p. unat (offset_text text) \<le> p \<and> p < unat new \<longrightarrow>
              (buffer ! p AND 0xc0 = 0x80 \<or> 0xfe \<le> buffer ! p)) \<and>
         (new < length_text text \<longrightarrow> \<not> (buffer ! unat new AND 0xc0 = 0x80 \<or> 0xfe \<le> buffer ! unat new))"
proof -
  define limit where "limit = length_text text - offset_text text"
  define n where "n = fetch_coalesce buffer (unat (offset_text text)) 1 limit"
  note d = decodeUTF8_stray [OF ok buf some stray, of use_cesu use_java, folded limit_def, folded n_def]
  from some have "unat limit = unat (length_text text) - unat (offset_text text)"
    unfolding limit_def by (simp add: unat_sub word_less_nat_alt word_le_nat_alt)
  with some have l1: "1 \<le> limit" by (simp add: word_less_nat_alt word_le_nat_alt)
  note r = fetch_coalesce_run [OF l1, of buffer "unat (offset_text text)", folded n_def]
  have new: "new = offset_text text + n" by (simp add: new_def d)
  have e: "error (fst (decodeUTF8 text use_cesu use_java False True))" by (simp add: d)
  from run_offsets [of "offset_text text" "length_text text" n
      "\<lambda>b. b AND 0xc0 = 0x80 \<or> 0xfe \<le> b" buffer, OF some] r stray
  show ?thesis unfolding new limit_def using e by blast
qed

lemma decodeBYTE_stray_run:
  assumes ok: "no_error (get_errors text)"
    and buf: "buffer_text text = Some buffer"
    and some: "offset_text text < length_text text"
    and stray: "buffer ! unat (offset_text text) AND 0x80 = 0x80"
  defines "new \<equiv> offset_text text + snd (snd (decodeBYTE text True True))"
  shows "error (fst (decodeBYTE text True True)) \<and>
         offset_text text < new \<and> new \<le> length_text text \<and>
         (\<forall>p. unat (offset_text text) \<le> p \<and> p < unat new \<longrightarrow> buffer ! p AND 0x80 = 0x80) \<and>
         (new < length_text text \<longrightarrow> buffer ! unat new AND 0x80 \<noteq> 0x80)"
proof -
  define limit where "limit = length_text text - offset_text text"
  define n where "n = byte_coalesce buffer (unat (offset_text text)) 1 limit"
  note d = decodeBYTE_stray [OF ok buf some stray, folded limit_def, folded n_def]
  from some have "unat limit = unat (length_text text) - unat (offset_text text)"
    unfolding limit_def by (simp add: unat_sub word_less_nat_alt word_le_nat_alt)
  with some have l1: "1 \<le> limit" by (simp add: word_less_nat_alt word_le_nat_alt)
  note r = byte_coalesce_run [OF l1, of buffer "unat (offset_text text)", folded n_def]
  have new: "new = offset_text text + n" by (simp add: new_def d)
  have e: "error (fst (decodeBYTE text True True))" by (simp add: d)
  from run_offsets [of "offset_text text" "length_text text" n
      "\<lambda>b. b AND 0x80 = 0x80" buffer, OF some] r stray
  show ?thesis unfolding new limit_def using e by blast
qed

lemma preflight_failed:
  "error (get_errors text) \<Longrightarrow>
     decodeUTF8 text use_cesu use_java strict coalesce = (get_errors text, 0, 0)"
  "error (get_errors text) \<Longrightarrow> decodeBYTE text use_ascii coalesce = (get_errors text, 0, 0)"
  "error (get_errors text) \<Longrightarrow> decodeCP1252 text strict coalesce = (get_errors text, 0, 0)"
  "error (get_errors_aligned text 1) \<Longrightarrow>
     decodeUTF16 text le use_ucs2 = (get_errors_aligned text 1, 0, 0)"
  "error (get_errors_aligned text 3) \<Longrightarrow>
     decodeUTF32 text le use_cesu use_ucs4 = (get_errors_aligned text 3, 0, 0)"
  by (simp_all add: decodeUTF8_def decodeBYTE_def decodeCP1252_def decodeUTF16_def
      decodeUTF32_def no_error_def)

lemma get_preflight_failed:
  assumes "error (get_errors_aligned text (unitSize tag - 1))"
  shows "get tag text = (get_errors_aligned text (unitSize tag - 1), 0, 0)"
  using assms by (cases tag) (simp_all add: get_errors_aligned_0 preflight_failed)

lemma get_wide_no_error:
  assumes "no_error (get_errors_aligned text (unitSize tag - 1))" and "unitSize tag \<noteq> 1"
  shows "no_error (fst (get tag text))"
  using assms
  by (cases tag) (simp_all add: no_error_def decodeUTF16_no_error decodeUTF32_no_error)

text \<open>
  C10 as stated fails on a cursor that does not pass the handler's pre-flight: the read
  reports a hard error and 0 bytes, and the offset stays where it was (here a misaligned
  UTF-16 offset, and a null buffer).
\<close>

theorem failed_read_offset_unchanged_counterexample:
  "read UTF16le \<lparr>length_text = 4, offset_text = 1, buffer_text = Some [0x41, 0x00, 0x42, 0x00]\<rparr>
     = (Failed OR MisalignedOffset, 0,
        \<lparr>length_text = 4, offset_text = 1, buffer_text = Some [0x41, 0x00, 0x42, 0x00]\<rparr>) \<and>
   read UTF8 \<lparr>length_text = 2, offset_text = 0, buffer_text = None\<rparr>
     = (Failed OR InvalidBuffer, 0, \<lparr>length_text = 2, offset_text = 0, buffer_text = None\<rparr>) \<and>
   error (Failed OR MisalignedOffset) \<and> error (Failed OR InvalidBuffer)"
  by (simp add: read_def decodeUTF16_def decodeUTF8_def eval_defs)

text \<open>
  C10, amended.  For every cursor and handler, \<open>IUTFTK::read\<close> returns what the handler's
  \<open>get\<close> returns and moves the offset by the byte count \<open>get\<close> reports.  When the cursor
  fails the handler's pre-flight, the read reports an error and the offset is unchanged.
  When the cursor passes it, a \<open>get\<close> that reports an error reports a byte count that is
  not 0, and the read leaves the cursor at another offset; the UTF-16 and UTF-32
  handlers report no error on such a cursor.  For the coalescing UTF-8
  handlers (UTF8, JUTF8, CESU8, JCESU8), when the byte at the offset is a stray byte (a
  continuation byte 80..BF, or FE, FF), the read reports an error and the new offset lies
  after the old one and within the length, every byte from the old offset up to the new
  one is a stray byte, and the new offset is the length or the byte there is not a stray
  byte: the read stops exactly at the end of the run.  The same holds for the ASCII
  handler and the bytes above 7F.
\<close>

theorem read_advances_by_reported_bytes:
  fixes tag :: UTF_SUB_TYPE and "text" :: utf_text and buffer :: "uint8_t list"
  defines "new \<equiv> offset_text (snd (snd (read tag text)))"
  shows
  "read tag text =
     (fst (get tag text), fst (snd (get tag text)),
      text\<lparr>offset_text := offset_text text + snd (snd (get tag text))\<rparr>) \<and>
   (error (get_errors_aligned text (unitSize tag - 1)) \<longrightarrow>
      error (fst (read tag text)) \<and> new = offset_text text) \<and>
   (no_error (get_errors_aligned text (unitSize tag - 1)) \<and> error (fst (get tag text)) \<longrightarrow>
      snd (snd (get tag text)) \<noteq> 0 \<and> new \<noteq> offset_text text) \<and>
   (no_error (get_errors_aligned text (unitSize tag - 1)) \<and> unitSize tag \<noteq> 1 \<longrightarrow>
      no_error (fst (read tag text))) \<and>
   (no_error (get_errors text) \<and> buffer_text text = Some buffer \<and>
    offset_text text < length_text text \<and>
    (tag = UTF8 \<or> tag = JUTF8 \<or> tag = CESU8 \<or> tag = JCESU8) \<and>
    (buffer ! unat (offset_text text) AND 0xc0 = 0x80 \<or>
     0xfe \<le> buffer ! unat (offset_text text)) \<longrightarrow>
      error (fst (read tag text)) \<and> offset_text text < new \<and> new \<le> length_text text \<and>
      (\<forall>p. unat (offset_text text) \<le> p \<and> p < unat new \<longrightarrow>
           (buffer ! p AND 0xc0 = 0x80 \<or> 0xfe \<le> buffer ! p)) \<and>
      (new < length_text text \<longrightarrow>
         \<not> (buffer ! unat new AND 0xc0 = 0x80 \<or> 0xfe \<le> buffer ! unat new))) \<and>
   (no_error (get_errors text) \<and> buffer_text text = Some buffer \<and>
    offset_text text < length_text text \<and> tag = ASCII \<and>
    buffer ! unat (offset_text text) AND 0x80 = 0x80 \<longrightarrow>
      error (fst (read tag text)) \<and> offset_text text < new \<and> new \<le> length_text text \<and>
      (\<forall>p. unat (offset_text text) \<le> p \<and> p < unat new \<longrightarrow> buffer ! p AND 0x80 = 0x80) \<and>
      (new < length_text text \<longrightarrow> buffer ! unat new AND 0x80 \<noteq> 0x80))"
proof -
  have r: "read tag text =
     (fst (get tag text), fst (snd (get tag text)),
      text\<lparr>offset_text := offset_text text + snd (snd (get tag text))\<rparr>)"
    by (simp add: read_def split: prod.splits)
  then have n: "new = offset_text text + snd (snd (get tag text))"
    and e: "fst (read tag text) = fst (get tag text)"
    by (simp_all add: new_def)
  have z: "error (fst (read tag text)) \<and> new = offset_text text"
    if "error (get_errors_aligned text (unitSize tag - 1))"
    using that get_preflight_failed [OF that] by (simp add: n e)
  have a: "snd (snd (get tag text)) \<noteq> 0 \<and> new \<noteq> offset_text text"
    if "no_error (get_errors_aligned text (unitSize tag - 1))" "error (fst (get tag text))"
    using get_error_bytes [OF that] by (simp add: n)
  have w: "no_error (fst (read tag text))"
    if "no_error (get_errors_aligned text (unitSize tag - 1))" "unitSize tag \<noteq> 1"
    using get_wide_no_error [OF that] by (simp add: e)
  have b: "error (fst (read tag text)) \<and> offset_text text < new \<and> new \<le> length_text text \<and>
      (\<forall>p. unat (offset_text text) \<le> p \<and> p < unat new \<longrightarrow>
           (buffer ! p AND 0xc0 = 0x80 \<or> 0xfe \<le> buffer ! p)) \<and>
      (new < length_text text \<longrightarrow>
         \<not> (buffer ! unat new AND 0xc0 = 0x80 \<or> 0xfe \<le> buffer ! unat new))"
    if h: "no_error (get_errors text)" "buffer_text text = Some buffer"
      "offset_text text < length_text text"
      "buffer ! unat (offset_text text) AND 0xc0 = 0x80 \<or> 0xfe \<le> buffer ! unat (offset_text text)"
      and t: "tag = UTF8 \<or> tag = JUTF8 \<or> tag = CESU8 \<or> tag = JCESU8"
    using t decodeUTF8_stray_run [OF h, of False False] decodeUTF8_stray_run [OF h, of False True]
      decodeUTF8_stray_run [OF h, of True False] decodeUTF8_stray_run [OF h, of True True]
    unfolding n e by auto
  have c: "error (fst (read tag text)) \<and> offset_text text < new \<and> new \<le> length_text text \<and>
      (\<forall>p. unat (offset_text text) \<le> p \<and> p < unat new \<longrightarrow> buffer ! p AND 0x80 = 0x80) \<and>
      (new < length_text text \<longrightarrow> buffer ! unat new AND 0x80 \<noteq> 0x80)"
    if h: "no_error (get_errors text)" "buffer_text text = Some buffer"
      "offset_text text < length_text text"
      "buffer ! unat (offset_text text) AND 0x80 = 0x80"
      and t: "tag = ASCII"
    using decodeBYTE_stray_run [OF h] n e by (simp add: t)
  from r z a w b c show ?thesis by blast
qed

theorem read_advances_by_reported_bytes_witness:
  "no_error (get_errors_aligned
      \<lparr>length_text = 3, offset_text = 0, buffer_text = Some [0x80, 0xBF, 0x41]\<rparr> (unitSize UTF8 - 1)) \<and>
   no_error (get_errors \<lparr>length_text = 3, offset_text = 0, buffer_text = Some [0x80, 0xBF, 0x41]\<rparr>) \<and>
   (0 :: uint32_t) < 3 \<and> ([0x80, 0xBF, 0x41] ! unat (0 :: uint32_t)) AND 0xc0 = (0x80 :: uint8_t) \<and>
   read UTF8 \<lparr>length_text = 3, offset_text = 0, buffer_text = Some [0x80, 0xBF, 0x41]\<rparr>
     = (Failed OR NotDecodable OR UnexpectedByte, 0x80,
        \<lparr>length_text = 3, offset_text = 2, buffer_text = Some [0x80, 0xBF, 0x41]\<rparr>) \<and>
   error (Failed OR NotDecodable OR UnexpectedByte) \<and>
   no_error (get_errors
      \<lparr>length_text = 4, offset_text = 0, buffer_text = Some [0x80, 0x81, 0x82, 0x41]\<rparr>) \<and>
   (0 :: uint32_t) < 4 \<and>
   ([0x80, 0x81, 0x82, 0x41] ! unat (0 :: uint32_t)) AND 0x80 = (0x80 :: uint8_t) \<and>
   read ASCII \<lparr>length_text = 4, offset_text = 0, buffer_text = Some [0x80, 0x81, 0x82, 0x41]\<rparr>
     = (Failed OR NotDecodable OR DisallowedByte, 0x80,
        \<lparr>length_text = 4, offset_text = 3, buffer_text = Some [0x80, 0x81, 0x82, 0x41]\<rparr>) \<and>
   error (Failed OR NotDecodable OR DisallowedByte) \<and>
   no_error (get_errors_aligned
      \<lparr>length_text = 2, offset_text = 0, buffer_text = Some [0xDC, 0x00]\<rparr>
      (unitSize UTF16be - 1)) \<and>
   unitSize UTF16be \<noteq> 1 \<and>
   read UTF16be \<lparr>length_text = 2, offset_text = 0, buffer_text = Some [0xDC, 0x00]\<rparr>
     = (IrregularForm OR LowSurrogate, 0xDC00,
        \<lparr>length_text = 2, offset_text = 2, buffer_text = Some [0xDC, 0x00]\<rparr>) \<and>
   no_error (IrregularForm OR LowSurrogate) \<and>
   error (get_errors_aligned
      \<lparr>length_text = 8, offset_text = 4, buffer_text = None\<rparr> (unitSize UTF32be - 1)) \<and>
   read UTF32be \<lparr>length_text = 8, offset_text = 4, buffer_text = None\<rparr>
     = (Failed OR InvalidBuffer, 0, \<lparr>length_text = 8, offset_text = 4, buffer_text = None\<rparr>)"
  using read_advances_by_reported_bytes
    [of UTF8 "\<lparr>length_text = 3, offset_text = 0, buffer_text = Some [0x80, 0xBF, 0x41]\<rparr>"
        "[0x80, 0xBF, 0x41]"]
    read_advances_by_reported_bytes
    [of ASCII "\<lparr>length_text = 4, offset_text = 0, buffer_text = Some [0x80, 0x81, 0x82, 0x41]\<rparr>"
        "[0x80, 0x81, 0x82, 0x41]"]
    read_advances_by_reported_bytes
    [of UTF32be "\<lparr>length_text = 8, offset_text = 4, buffer_text = None\<rparr>" "[]"]
    read_advances_by_reported_bytes
    [of UTF16be "\<lparr>length_text = 2, offset_text = 0, buffer_text = Some [0xDC, 0x00]\<rparr>" "[]"]
  by (simp add: eval_defs decodeBYTE_def decodeUTF32_def decodeUTF16_def)

section \<open>The scalar of a failed decode\<close>

text \<open>
  C3 as stated fails: the only failures of \<open>decodeUTF16\<close> and \<open>decodeUTF32\<close> are
  those of the cursor pre-flight, and the scalar is then 0, not 0x80000000 (here the
  offset is misaligned); and strict \<open>decodeCP1252\<close> returns 0 for the undefined byte
  0x81, not the byte.
\<close>

theorem decode_failure_scalar_counterexample:
  "get UTF16le \<lparr>length_text = 2, offset_text = 1, buffer_text = Some [0x41, 0x00]\<rparr>
     = (Failed OR MisalignedOffset, 0, 0) \<and> error (Failed OR MisalignedOffset) \<and>
   get CP1252st \<lparr>length_text = 1, offset_text = 0, buffer_text = Some [0x81]\<rparr>
     = (Failed OR NotDecodable, 0, 1) \<and> error (Failed OR NotDecodable)"
  by (simp add: get_errors_def get_errors_aligned_def decodeUTF16_def decodeCP1252_def
      cp1252ToUnicode_def translate_def isCP1252UndefinedC1_def no_error_def Let_def)

text \<open>
  C3, amended.  On a cursor that passes the pre-flight, a failed \<open>decodeUTF8\<close> and a
  failed \<open>decodeBYTE\<close> return the first byte of the offending sequence as the scalar.
  \<open>decodeUTF16\<close> and \<open>decodeUTF32\<close> fail only in the pre-flight of the cursor, and then
  return the scalar 0 and 0 bytes.
\<close>

theorem decode_failure_scalar:
  "(no_error (get_errors text) \<and> buffer_text text = Some buffer \<and>
    error (fst (decodeUTF8 text use_cesu use_java strict coalesce)) \<longrightarrow>
      fst (snd (decodeUTF8 text use_cesu use_java strict coalesce))
        = ucast (buffer ! unat (offset_text text))) \<and>
   (no_error (get_errors text) \<and> buffer_text text = Some buffer \<and>
    error (fst (decodeBYTE text use_ascii coalesce)) \<longrightarrow>
      fst (snd (decodeBYTE text use_ascii coalesce))
        = ucast (buffer ! unat (offset_text text))) \<and>
   (error (fst (decodeUTF16 text le use_ucs2)) \<longrightarrow>
      decodeUTF16 text le use_ucs2 = (get_errors_aligned text 1, 0, 0) \<and>
      error (get_errors_aligned text 1)) \<and>
   (error (fst (decodeUTF32 text le use_cesu use_ucs4)) \<longrightarrow>
      decodeUTF32 text le use_cesu use_ucs4 = (get_errors_aligned text 3, 0, 0) \<and>
      error (get_errors_aligned text 3))"
  using decodeUTF8_error_unicode decodeBYTE_error_unicode decodeUTF16_error_zero
    decodeUTF32_error_zero
  by blast

theorem decode_failure_scalar_witness:
  "fst (snd (decodeUTF8 \<lparr>length_text = 4, offset_text = 0,
                           buffer_text = Some [0xE0, 0xA0, 0x41, 0x42]\<rparr> False False False True))
     = 0xE0 \<and>
   fst (snd (decodeBYTE \<lparr>length_text = 4, offset_text = 0,
                           buffer_text = Some [0xE0, 0xA0, 0x41, 0x42]\<rparr> True True)) = 0xE0 \<and>
   decodeUTF16 \<lparr>length_text = 8, offset_text = 1, buffer_text = Some [0, 0, 0, 0, 0, 0, 0, 0]\<rparr>
      True False = (Failed OR MisalignedOffset, 0, 0) \<and>
   decodeUTF32 \<lparr>length_text = 8, offset_text = 1, buffer_text = Some [0, 0, 0, 0, 0, 0, 0, 0]\<rparr>
      True False False = (Failed OR MisalignedOffset, 0, 0)"
  using decode_failure_scalar
    [of "\<lparr>length_text = 4, offset_text = 0, buffer_text = Some [0xE0, 0xA0, 0x41, 0x42]\<rparr>"
        "[0xE0, 0xA0, 0x41, 0x42]" False False False True True True False False]
    decode_failure_scalar
    [of "\<lparr>length_text = 8, offset_text = 1, buffer_text = Some [0, 0, 0, 0, 0, 0, 0, 0]\<rparr>"
        "[0, 0, 0, 0, 0, 0, 0, 0]" False False False True True True False False]
  by (simp add: eval_defs decodeBYTE_def decodeUTF16_def decodeUTF32_def)
section \<open>Encoders: bytes written and the NotEncodable bit\<close>

lemma flag_tests [simp]:
  "any_of ModifiedUTF8 ModifiedUTF8" "\<not> any_of DelimitString ModifiedUTF8"
  "\<not> any_of ExtendedUTF8 ModifiedUTF8" "\<not> any_of ExtendedUCS4 ModifiedUTF8"
  "\<not> any_of IrregularForm ModifiedUTF8" "\<not> any_of NonCharacter ModifiedUTF8"
  "\<not> any_of Supplementary ModifiedUTF8" "\<not> any_of SurrogatePair ModifiedUTF8"
  "\<not> any_of LowSurrogate ModifiedUTF8" "\<not> any_of HighSurrogate ModifiedUTF8"
  "any_of SurrogatePair SurrogatePair" "\<not> any_of DelimitString SurrogatePair"
  "\<not> any_of ExtendedUTF8 SurrogatePair" "\<not> any_of ExtendedUCS4 SurrogatePair"
  "\<not> any_of IrregularForm SurrogatePair" "\<not> any_of NonCharacter SurrogatePair"
  "\<not> any_of Supplementary SurrogatePair" "\<not> any_of ModifiedUTF8 SurrogatePair"
  "\<not> any_of LowSurrogate SurrogatePair" "\<not> any_of HighSurrogate SurrogatePair"
  "\<not> any_of InvalidPoint SurrogatePair"
  by (simp_all add: any_of_def bits_defs)

lemma encodeUTF8_flags_props:
  "\<not> error (encodeUTF8_flags 0 unicode use_cesu use_java)"
  "any_of (encodeUTF8_flags 0 unicode use_cesu use_java) ModifiedUTF8 = (unicode = 0 \<and> use_java)"
  "any_of (encodeUTF8_flags 0 unicode use_cesu use_java) SurrogatePair
     = (use_cesu \<and> 0xffff < unicode \<and> unicode \<le> 0x10ffff)"
  by (auto simp add: encodeUTF8_flags_def Let_def any_of_or word_le_nat_alt word_less_nat_alt
      unat_gt_0 unat_eq_zero)

lemma encodeUTF8_len:
  assumes "no_error (get_errors text)" "lenUTF8 unicode use_cesu use_java \<noteq> 0"
    and "lenUTF8 unicode use_cesu use_java \<le> length_text text - offset_text text"
  shows "snd (snd (encodeUTF8 text unicode use_cesu use_java)) = lenUTF8 unicode use_cesu use_java"
proof -
  from get_errors_ok [OF assms(1)] have g: "get_errors text = 0" by simp
  define limit where "limit = length_text text - offset_text text"
  from assms(2,3) show ?thesis
    unfolding encodeUTF8_def g encodeUTF8_flags_props no_error_def Let_def lenUTF8_def
      limit_def [symmetric]
    by (simp add: encodeUTF8_flags_props not_less word_le_nat_alt word_less_nat_alt
        split: if_splits) blast
qed

lemma notenc_bits [simp]:
  "any_of NotEncodable NotEncodable" "\<not> any_of Failed NotEncodable"
  "\<not> any_of InvalidBuffer NotEncodable" "\<not> any_of InvalidOffset NotEncodable"
  "\<not> any_of MisalignedOffset NotEncodable" "\<not> any_of MisalignedLength NotEncodable"
  "\<not> any_of WriteOverflow NotEncodable" "\<not> any_of NotEnoughBits NotEncodable"
  "\<not> any_of InvalidPoint NotEncodable" "\<not> any_of DelimitString NotEncodable"
  "\<not> any_of ModifiedUTF8 NotEncodable" "\<not> any_of ExtendedUTF8 NotEncodable"
  "\<not> any_of ExtendedUCS4 NotEncodable" "\<not> any_of IrregularForm NotEncodable"
  "\<not> any_of NonCharacter NotEncodable" "\<not> any_of Supplementary NotEncodable"
  "\<not> any_of SurrogatePair NotEncodable" "\<not> any_of LowSurrogate NotEncodable"
  "\<not> any_of HighSurrogate NotEncodable"
  by (simp_all add: any_of_def bits_defs)

lemma get_errors_notenc [simp]:
  "\<not> any_of (get_errors text) NotEncodable"
  "\<not> any_of (get_errors_aligned text m) NotEncodable"
  by (simp_all add: get_errors_def get_errors_aligned_def Let_def any_of_or)

lemma encodeUTF8_notenc: "\<not> any_of (fst (encodeUTF8 text unicode use_cesu use_java)) NotEncodable"
proof -
  have "\<not> any_of (encodeUTF8_flags (get_errors text) unicode use_cesu use_java) NotEncodable"
    by (simp add: encodeUTF8_flags_def Let_def any_of_or)
  then show ?thesis
    by (simp add: encodeUTF8_def Let_def any_of_or)
qed

lemma encodeUTF16_notenc: "\<not> any_of (fst (encodeUTF16 text unicode le use_ucs2)) NotEncodable"
proof -
  have "\<not> any_of (encodeUTF16_flags (get_errors_aligned text 1) unicode use_ucs2) NotEncodable"
    by (simp add: encodeUTF16_flags_def Let_def any_of_or)
  then show ?thesis
    by (simp add: encodeUTF16_def Let_def any_of_or)
qed

lemma encodeUTF32_notenc:
  "\<not> any_of (fst (encodeUTF32 text unicode le use_cesu use_ucs4)) NotEncodable"
proof -
  have "\<not> any_of (encodeUTF32_flags (get_errors_aligned text 3) unicode use_cesu use_ucs4)
          NotEncodable"
    by (simp add: encodeUTF32_flags_def Let_def any_of_or)
  then show ?thesis
    by (simp add: encodeUTF32_def Let_def any_of_or)
qed

lemma encodeUTF16_flags_props:
  "error (encodeUTF16_flags 0 unicode use_ucs2)
     = (0x10ffff < unicode \<or> (use_ucs2 \<and> 0xffff < unicode))"
  "any_of (encodeUTF16_flags 0 unicode use_ucs2) SurrogatePair
     = (\<not> use_ucs2 \<and> 0xffff < unicode \<and> unicode \<le> 0x10ffff)"
  by (auto simp add: encodeUTF16_flags_def Let_def error_def any_of_def ErrorsMask_def bits_defs
      word_le_nat_alt word_less_nat_alt unat_gt_0 unat_eq_zero)

lemma encodeUTF32_flags_props:
  "\<not> error (encodeUTF32_flags 0 unicode use_cesu use_ucs4)"
  "any_of (encodeUTF32_flags 0 unicode use_cesu use_ucs4) SurrogatePair
     = (use_cesu \<and> 0xffff < unicode \<and> unicode \<le> 0x10ffff)"
  by (auto simp add: encodeUTF32_flags_def Let_def error_def any_of_def ErrorsMask_def bits_defs
      word_le_nat_alt word_less_nat_alt unat_gt_0 unat_eq_zero)

lemma encodeUTF16_len:
  assumes "no_error (get_errors_aligned text 1)" "lenUTF16 unicode use_ucs2 \<noteq> 0"
    and "lenUTF16 unicode use_ucs2 \<le> length_text text - offset_text text"
  shows "snd (snd (encodeUTF16 text unicode le use_ucs2)) = lenUTF16 unicode use_ucs2"
proof -
  from get_errors_aligned_ok [OF assms(1)] have g: "get_errors_aligned text 1 = 0" by simp
  define limit where "limit = length_text text - offset_text text"
  from assms(2,3) show ?thesis
    unfolding encodeUTF16_def g no_error_def Let_def lenUTF16_def limit_def [symmetric]
    by (simp add: encodeUTF16_flags_props not_less word_le_nat_alt word_less_nat_alt
        split: if_splits)
qed

lemma encodeUTF32_len:
  assumes "no_error (get_errors_aligned text 3)" "lenUTF32 unicode use_cesu use_ucs4 \<noteq> 0"
    and "lenUTF32 unicode use_cesu use_ucs4 \<le> length_text text - offset_text text"
  shows "snd (snd (encodeUTF32 text unicode le use_cesu use_ucs4))
           = lenUTF32 unicode use_cesu use_ucs4"
proof -
  from get_errors_aligned_ok [OF assms(1)] have g: "get_errors_aligned text 3 = 0" by simp
  define limit where "limit = length_text text - offset_text text"
  from assms(2,3) show ?thesis
    unfolding encodeUTF32_def g no_error_def Let_def lenUTF32_def limit_def [symmetric]
    by (simp add: encodeUTF32_flags_props not_less word_le_nat_alt word_less_nat_alt
        split: if_splits) auto
qed

lemma and_mask_le:
  fixes u :: uint32_t
  shows "(u AND 0xff = u) = (u \<le> 0xff)" "(u AND 0x7f = u) = (u \<le> 0x7f)"
  using mask_eq_iff_w2p [of 8 u] mask_eq_iff_w2p [of 7 u]
  by (simp_all add: mask_eq_exp_minus_1 word_size word_le_nat_alt word_less_nat_alt) arith+

lemma encodeBYTE_len:
  assumes "no_error (get_errors text)"
    and "unicode \<le> (if use_ascii then 0x7f else 0xff)"
    and "1 \<le> length_text text - offset_text text"
  shows "snd (snd (encodeBYTE text unicode use_ascii)) = 1"
proof -
  from get_errors_ok [OF assms(1)] have g: "get_errors text = 0" by simp
  define limit where "limit = length_text text - offset_text text"
  from assms(2,3) show ?thesis
    unfolding encodeBYTE_def g no_error_def Let_def limit_def [symmetric]
    by (auto simp add: not_less word_le_nat_alt word_less_nat_alt unat_gt_0 unat_eq_zero
        split: if_splits)
qed

lemma encodeBYTE_notenc:
  assumes "any_of (fst (encodeBYTE text unicode use_ascii)) NotEncodable"
  shows "\<not> unicode \<le> (if use_ascii then 0x7f else 0xff)"
  using assms
  unfolding encodeBYTE_def Let_def
  by (auto simp add: any_of_or not_less word_le_nat_alt word_less_nat_alt unat_gt_0 unat_eq_zero
        split: if_splits)

lemma unicodeToCP1252_ascii:
  "unicode \<le> 0x7f \<Longrightarrow> unicodeToCP1252 unicode strictness = (True, ucast unicode)"
  by (auto simp add: unicodeToCP1252_def word_le_nat_alt)

lemma encodeCP1252_len:
  assumes "no_error (get_errors text)"
    and "unicode \<le> 0x7f"
    and "1 \<le> length_text text - offset_text text"
  shows "snd (snd (encodeCP1252 text unicode strict)) = 1"
proof -
  from get_errors_ok [OF assms(1)] have g: "get_errors text = 0" by simp
  define limit where "limit = length_text text - offset_text text"
  from assms(2,3) show ?thesis
    unfolding encodeCP1252_def g no_error_def Let_def limit_def [symmetric]
    by (auto simp add: unicodeToCP1252_ascii not_less word_le_nat_alt [of 1])
qed

lemma encodeCP1252_notenc:
  assumes "any_of (fst (encodeCP1252 text unicode strict)) NotEncodable"
  shows "\<not> unicode \<le> 0x7f"
proof
  assume "unicode \<le> 0x7f"
  with assms show False
    unfolding encodeCP1252_def Let_def
    by (auto simp add: unicodeToCP1252_ascii any_of_or split: if_splits)
qed

lemma len_byte_cases:
  "len BYTE u \<noteq> 0 \<longleftrightarrow> u \<le> 0xff" "len BYTEns u \<noteq> 0 \<longleftrightarrow> u \<le> 0xff"
  "len ASCII u \<noteq> 0 \<longleftrightarrow> u \<le> 0x7f" "len ASCIIns u \<noteq> 0 \<longleftrightarrow> u \<le> 0x7f"
  "len CP1252 u \<noteq> 0 \<longleftrightarrow> u \<le> 0x7f" "len CP1252ns u \<noteq> 0 \<longleftrightarrow> u \<le> 0x7f"
  "len CP1252st u \<noteq> 0 \<longleftrightarrow> u \<le> 0x7f"
  by (simp_all add: and_mask_le)

lemma len_byte_one:
  "len BYTE u \<noteq> 0 \<Longrightarrow> len BYTE u = 1" "len BYTEns u \<noteq> 0 \<Longrightarrow> len BYTEns u = 1"
  "len ASCII u \<noteq> 0 \<Longrightarrow> len ASCII u = 1" "len ASCIIns u \<noteq> 0 \<Longrightarrow> len ASCIIns u = 1"
  "len CP1252 u \<noteq> 0 \<Longrightarrow> len CP1252 u = 1" "len CP1252ns u \<noteq> 0 \<Longrightarrow> len CP1252ns u = 1"
  "len CP1252st u \<noteq> 0 \<Longrightarrow> len CP1252st u = 1"
  by (simp_all split: if_splits)

lemma set_bytes_len:
  assumes ok: "no_error (get_errors_aligned text (unitSize tag - 1))"
    and nz: "len tag unicode \<noteq> 0"
    and room: "len tag unicode \<le> length_text text - offset_text text"
  shows "snd (snd (set tag text unicode)) = len tag unicode"
proof -
  from get_errors_aligned_ok [OF ok] have g: "no_error (get_errors text)" by simp
  show ?thesis
  proof (cases tag)
    case BYTE
    from nz room have "unicode \<le> 0xff" "1 \<le> length_text text - offset_text text"
      "len tag unicode = 1"
      using len_byte_cases(1) [of unicode] len_byte_one(1) [of unicode] unfolding BYTE by auto
    with encodeBYTE_len [OF g, of unicode False] show ?thesis unfolding BYTE by simp
  next
    case BYTEns
    from nz room have "unicode \<le> 0xff" "1 \<le> length_text text - offset_text text"
      "len tag unicode = 1"
      using len_byte_cases(2) [of unicode] len_byte_one(2) [of unicode] unfolding BYTEns by auto
    with encodeBYTE_len [OF g, of unicode False] show ?thesis unfolding BYTEns by simp
  next
    case ASCII
    from nz room have "unicode \<le> 0x7f" "1 \<le> length_text text - offset_text text"
      "len tag unicode = 1"
      using len_byte_cases(3) [of unicode] len_byte_one(3) [of unicode] unfolding ASCII by auto
    with encodeBYTE_len [OF g, of unicode True] show ?thesis unfolding ASCII by simp
  next
    case ASCIIns
    from nz room have "unicode \<le> 0x7f" "1 \<le> length_text text - offset_text text"
      "len tag unicode = 1"
      using len_byte_cases(4) [of unicode] len_byte_one(4) [of unicode] unfolding ASCIIns by auto
    with encodeBYTE_len [OF g, of unicode True] show ?thesis unfolding ASCIIns by simp
  next
    case CP1252
    from nz room have "unicode \<le> 0x7f" "1 \<le> length_text text - offset_text text"
      "len tag unicode = 1"
      using len_byte_cases(5) [of unicode] len_byte_one(5) [of unicode] unfolding CP1252 by auto
    with encodeCP1252_len [OF g, of unicode False] show ?thesis unfolding CP1252 by simp
  next
    case CP1252ns
    from nz room have "unicode \<le> 0x7f" "1 \<le> length_text text - offset_text text"
      "len tag unicode = 1"
      using len_byte_cases(6) [of unicode] len_byte_one(6) [of unicode] unfolding CP1252ns by auto
    with encodeCP1252_len [OF g, of unicode False] show ?thesis unfolding CP1252ns by simp
  next
    case CP1252st
    from nz room have "unicode \<le> 0x7f" "1 \<le> length_text text - offset_text text"
      "len tag unicode = 1"
      using len_byte_cases(7) [of unicode] len_byte_one(7) [of unicode] unfolding CP1252st by auto
    with encodeCP1252_len [OF g, of unicode True] show ?thesis unfolding CP1252st by simp
  qed (use ok g nz room in \<open>simp_all add: encodeUTF8_len encodeUTF16_len encodeUTF32_len\<close>)
qed

lemma set_notenc_len:
  assumes "any_of (fst (set tag text unicode)) NotEncodable"
  shows "len tag unicode = 0"
proof (cases tag)
  case BYTE
  with encodeBYTE_notenc [of "text" unicode False] assms len_byte_cases(1) [of unicode]
  show ?thesis by simp
next
  case BYTEns
  with encodeBYTE_notenc [of "text" unicode False] assms len_byte_cases(2) [of unicode]
  show ?thesis by simp
next
  case ASCII
  with encodeBYTE_notenc [of "text" unicode True] assms len_byte_cases(3) [of unicode]
  show ?thesis by simp
next
  case ASCIIns
  with encodeBYTE_notenc [of "text" unicode True] assms len_byte_cases(4) [of unicode]
  show ?thesis by simp
next
  case CP1252
  with encodeCP1252_notenc [of "text" unicode False] assms len_byte_cases(5) [of unicode]
  show ?thesis by simp
next
  case CP1252ns
  with encodeCP1252_notenc [of "text" unicode False] assms len_byte_cases(6) [of unicode]
  show ?thesis by simp
next
  case CP1252st
  with encodeCP1252_notenc [of "text" unicode True] assms len_byte_cases(7) [of unicode]
  show ?thesis by simp
qed (use assms in \<open>simp_all add: encodeUTF8_notenc encodeUTF16_notenc encodeUTF32_notenc\<close>)

lemma encodeBYTE_notenc_iff:
  "any_of (fst (encodeBYTE text unicode use_ascii)) NotEncodable
     = (\<not> unicode \<le> (if use_ascii then 0x7f else 0xff))"
  unfolding encodeBYTE_def Let_def
  by (auto simp add: any_of_or not_less word_le_nat_alt word_less_nat_alt unat_gt_0 unat_eq_zero
        split: if_splits)

lemma set_byte_notenc_iff:
  assumes "tag = BYTE \<or> tag = BYTEns \<or> tag = ASCII \<or> tag = ASCIIns"
  shows "any_of (fst (set tag text unicode)) NotEncodable = (len tag unicode = 0)"
  using assms len_byte_cases(1-4) [of unicode]
  by (auto simp add: encodeBYTE_notenc_iff simp del: len.simps)

text \<open>
  C2 as stated fails: \<open>encodeUTF32\<close> never reports \<open>NotEncodable\<close>.  Without UCS4,
  \<open>lenUTF32\<close> is 0 for 0x110000, yet the encoder writes the four bytes of the scalar and
  reports \<open>ExtendedUCS4 | IrregularForm\<close>.
\<close>

theorem encodeUTF32_extended_counterexample:
  "len UTF32le 0x110000 = 0 \<and>
   set UTF32le \<lparr>length_text = 4, offset_text = 0, buffer_text = Some [0, 0, 0, 0]\<rparr> 0x110000
     = (ExtendedUCS4 OR IrregularForm,
        \<lparr>length_text = 4, offset_text = 0, buffer_text = Some [0, 0, 0x11, 0]\<rparr>, 4) \<and>
   \<not> any_of (ExtendedUCS4 OR IrregularForm) NotEncodable"
  by (simp add: eval_defs lenUTF32_def encodeUTF32_def encodeUTF32_flags_def poke_def)

text \<open>
  C2, amended.  On a cursor that passes the handler's pre-flight and has room for
  \<open>len\<close> bytes, every handler's \<open>set\<close> writes exactly \<open>len\<close> bytes whenever \<open>len\<close> is
  non-zero; a diagnostic with \<open>NotEncodable\<close> set implies \<open>len == 0\<close>; and for the BYTE
  and ASCII handlers \<open>len == 0\<close> implies \<open>NotEncodable\<close>.
\<close>

theorem encoder_length_consistency:
  assumes "no_error (get_errors_aligned text (unitSize tag - 1))"
    and "len tag unicode \<le> length_text text - offset_text text"
  shows "(len tag unicode \<noteq> 0 \<longrightarrow> snd (snd (set tag text unicode)) = len tag unicode) \<and>
         (any_of (fst (set tag text unicode)) NotEncodable \<longrightarrow> len tag unicode = 0) \<and>
         (tag = BYTE \<or> tag = BYTEns \<or> tag = ASCII \<or> tag = ASCIIns \<longrightarrow>
            len tag unicode = 0 \<longrightarrow> any_of (fst (set tag text unicode)) NotEncodable)"
  using set_bytes_len [OF assms(1) _ assms(2)] set_notenc_len [of tag "text" unicode]
    set_byte_notenc_iff [of tag "text" unicode]
  by blast

theorem encoder_length_consistency_witness:
  "no_error (get_errors_aligned
     \<lparr>length_text = 4, offset_text = 0, buffer_text = Some [0, 0, 0, 0]\<rparr> (unitSize UTF16le - 1)) \<and>
   len UTF16le 0x1F600 \<le> 4 - 0 \<and> len UTF16le 0x1F600 \<noteq> 0 \<and>
   snd (snd (set UTF16le \<lparr>length_text = 4, offset_text = 0, buffer_text = Some [0, 0, 0, 0]\<rparr>
     0x1F600)) = len UTF16le 0x1F600 \<and>
   no_error (get_errors_aligned
     \<lparr>length_text = 4, offset_text = 0, buffer_text = Some [0, 0, 0, 0]\<rparr> (unitSize BYTE - 1)) \<and>
   len BYTE 0x100 = 0 \<and>
   any_of (fst (set BYTE \<lparr>length_text = 4, offset_text = 0, buffer_text = Some [0, 0, 0, 0]\<rparr>
     0x100)) NotEncodable"
proof -
  let ?t = "\<lparr>length_text = 4, offset_text = 0, buffer_text = Some [0, 0, 0, 0]\<rparr>"
  have h1: "no_error (get_errors_aligned ?t (unitSize UTF16le - 1))"
    and h2: "len UTF16le 0x1F600 \<le> length_text ?t - offset_text ?t"
    and h3: "no_error (get_errors_aligned ?t (unitSize BYTE - 1))"
    and h4: "len BYTE 0x100 \<le> length_text ?t - offset_text ?t"
    by (simp_all add: eval_defs lenUTF16_def)
  have h5: "len UTF16le 0x1F600 \<noteq> 0" "len BYTE 0x100 = 0"
    by (simp_all add: lenUTF16_def)
  from encoder_length_consistency [OF h1 h2] encoder_length_consistency [OF h3 h4] h1 h3 h5
  show ?thesis by (simp add: lenUTF16_def)
qed
section \<open>Buffers: bytes stored and read back\<close>

lemma length_store [simp]: "length (store buffer at bs) = length buffer"
  by (induction bs arbitrary: buffer at) simp_all

lemma store_nth_before: "j < at \<Longrightarrow> store buffer at bs ! j = buffer ! j"
  by (induction bs arbitrary: buffer at) simp_all

lemma store_nth:
  "at + length bs \<le> length buffer \<Longrightarrow> i < length bs \<Longrightarrow> store buffer at bs ! (at + i) = bs ! i"
proof (induction bs arbitrary: buffer at i)
  case Nil
  then show ?case by simp
next
  case (Cons b bs)
  show ?case
  proof (cases i)
    case 0
    with Cons.prems show ?thesis by (simp add: store_nth_before)
  next
    case (Suc j)
    with Cons.prems Cons.IH [of "Suc at" "buffer[at := b]" j] show ?thesis by simp
  qed
qed

lemma poke_Some:
  "buffer_text text = Some buffer \<Longrightarrow>
     poke text bs = text\<lparr>buffer_text := Some (store buffer (unat (offset_text text)) bs)\<rparr>"
  by (simp add: poke_def)

lemma get_errors_poke [simp]:
  "get_errors (poke text bs) = get_errors text"
  "get_errors_aligned (poke text bs) m = get_errors_aligned text m"
  by (simp_all add: poke_def get_errors_def get_errors_aligned_def split: option.splits)

lemma poke_fields [simp]:
  "length_text (poke text bs) = length_text text"
  "offset_text (poke text bs) = offset_text text"
  by (simp_all add: poke_def split: option.splits)

text \<open>The room the caller promises: \<open>n\<close> bytes from the offset lie inside the region.\<close>

lemma room_nat:
  assumes "offset_text text \<le> length_text text"
    and "n \<le> length_text text - offset_text text"
    and "unat (length_text text) \<le> length buffer"
  shows "unat (offset_text text) + unat n \<le> length buffer"
  using assms by (simp add: word_le_nat_alt unat_sub)

lemma poke_buffer:
  "buffer_text text = Some buffer \<Longrightarrow>
     buffer_text (poke text bs) = Some (store buffer (unat (offset_text text)) bs)"
  by (simp add: poke_Some)

section \<open>Toolkit: equality of 32-bit words bit by bit\<close>

lemma all_lt_32: "(\<forall>n<32::nat. Q n) = ((\<forall>n<16. Q n) \<and> (\<forall>n<16. Q (16 + n)))"
  (is "?l = ?r")
proof
  assume ?l then show ?r by simp
next
  assume r: ?r
  show ?l
  proof (intro allI impI)
    fix n :: nat assume n: "n < 32"
    show "Q n"
    proof (cases "n < 16")
      case True with r show ?thesis by simp
    next
      case False
      with n have "n - 16 < 16" by simp
      with r have "Q (16 + (n - 16))" by blast
      with False show ?thesis by simp
    qed
  qed
qed

lemma word32_eqI:
  fixes a b :: "32 word"
  assumes "\<forall>n<32. bit a n = bit b n"
  shows "a = b"
  using assms by (intro bit_word_eqI) simp

lemma high_clear:
  fixes u :: "'a::len word"
  assumes "u < 2 ^ k" "k \<le> n"
  shows "bit u n = False"
proof -
  from less_mask_eq [OF assms(1)] have "u AND mask k = u" .
  then have "bit u n = bit (u AND mask k) n" by simp
  with assms(2) show ?thesis by (simp add: bit_and_iff bit_mask_iff)
qed

lemma ucast_byte_id:
  fixes u :: "32 word"
  assumes "u \<le> 0xff"
  shows "ucast (ucast u :: 8 word) = u"
proof (rule bit_word_eqI)
  fix n
  from assms have "u < 2 ^ 8" by (simp add: word_le_nat_alt word_less_nat_alt)
  from high_clear [OF this, of n]
  show "bit (ucast (ucast u :: 8 word) :: 32 word) n = bit u n"
    by (cases "n < 8") (simp_all add: bit_simps)
qed

lemma ucast_byte_eq_0:
  fixes u :: "32 word"
  assumes "u \<le> 0xff"
  shows "(ucast u = (0 :: 8 word)) = (u = 0)"
  using ucast_byte_id [OF assms] by auto

section \<open>Round trip: BYTE and ASCII\<close>

lemma encodeBYTE_ok:
  assumes "no_error (get_errors text)"
    and "unicode \<le> (if use_ascii then 0x7f else 0xff)"
    and "1 \<le> length_text text - offset_text text"
  shows "fst (snd (encodeBYTE text unicode use_ascii)) = poke text [ucast unicode]"
proof -
  from get_errors_ok [OF assms(1)] have g: "get_errors text = 0" by simp
  define limit where "limit = length_text text - offset_text text"
  from assms(2,3) show ?thesis
    unfolding encodeBYTE_def g no_error_def Let_def limit_def [symmetric]
    by (auto simp add: not_less word_le_nat_alt word_less_nat_alt unat_gt_0 unat_eq_zero
        split: if_splits)
qed

lemma decodeBYTE_ok:
  assumes g: "no_error (get_errors text)"
    and buf: "buffer_text text = Some buffer"
    and room: "1 \<le> length_text text - offset_text text"
    and b: "buffer ! unat (offset_text text) = ucast unicode"
    and u: "unicode \<le> (if use_ascii then 0x7f else 0xff)"
  shows "decodeBYTE text use_ascii coalesce
           = ((if unicode = 0 then DelimitString else 0), unicode, 1)"
proof -
  from get_errors_ok [OF g] have g0: "get_errors text = 0" by simp
  from u have u8: "unicode \<le> 0xff" by (auto simp: word_le_nat_alt split: if_splits)
  have a: "use_ascii \<Longrightarrow> unicode AND 0x80 = 0"
  proof -
    assume "use_ascii"
    with u have lt: "unicode < 2 ^ 7" by (simp add: word_le_nat_alt word_less_nat_alt)
    define P where "P = (\<lambda>n. bit (unicode AND 0x80) n = bit (0 :: 32 word) n)"
    have "\<forall>n<32. P n"
      apply (simp only: all_lt_32 all_lt_16)
      apply (simp add: P_def bit_simps high_clear [OF lt])
      done
    then show ?thesis by (intro word32_eqI) (simp add: P_def)
  qed
  define limit where "limit = length_text text - offset_text text"
  from room have r: "\<not> limit < 1" unfolding limit_def by (auto simp add: word_le_nat_alt)
  have t: "\<not> (use_ascii \<and> unicode AND 0x80 \<noteq> 0)" using a by blast
  show ?thesis
    unfolding decodeBYTE_def g0 Let_def limit_def [symmetric] buf
    using r by (simp add: b ucast_byte_id [OF u8] no_error_def t)
qed


lemma roundtripBYTE:
  assumes ok: "no_error (get_errors text)"
    and u: "unicode \<le> (if use_ascii then 0x7f else 0xff)"
    and room: "1 \<le> length_text text - offset_text text"
    and buf: "buffer_text text = Some buffer"
    and len: "unat (length_text text) \<le> length buffer"
  shows "decodeBYTE (fst (snd (encodeBYTE text unicode use_ascii))) use_ascii coalesce
           = ((if unicode = 0 then DelimitString else 0), unicode, 1)"
proof -
  let ?base = "unat (offset_text text)"
  from get_errors_ok [OF ok] have off: "offset_text text \<le> length_text text" by simp
  from room_nat [OF off room len] have fits: "?base + length [ucast unicode :: uint8_t] \<le> length buffer"
    by simp
  note p = poke_buffer [OF buf, of "[ucast unicode]"]
  have "decodeBYTE (poke text [ucast unicode]) use_ascii coalesce
           = ((if unicode = 0 then DelimitString else 0), unicode, 1)"
  proof (rule decodeBYTE_ok [OF _ p _ _ u])
    show "no_error (get_errors (poke text [ucast unicode]))" using ok by simp
    show "1 \<le> length_text (poke text [ucast unicode]) - offset_text (poke text [ucast unicode])"
      using room by simp
    show "store buffer ?base [ucast unicode] ! unat (offset_text (poke text [ucast unicode]))
            = ucast unicode"
      using store_nth [OF fits, of 0] by simp
  qed
  then show ?thesis by (simp add: encodeBYTE_ok [OF ok u room])
qed

section \<open>Round trip: code page 1252\<close>

lemma encodeCP1252_ok:
  assumes "no_error (get_errors text)"
    and "unicode \<le> 0x7f"
    and "1 \<le> length_text text - offset_text text"
  shows "fst (snd (encodeCP1252 text unicode strict)) = poke text [ucast unicode]"
proof -
  from get_errors_ok [OF assms(1)] have g: "get_errors text = 0" by simp
  define limit where "limit = length_text text - offset_text text"
  from assms(2) have z: "unicode \<le> 0 \<Longrightarrow> ucast unicode = (0 :: uint8_t)" by simp
  from assms(2,3) show ?thesis
    unfolding encodeCP1252_def g no_error_def Let_def limit_def [symmetric]
    by (auto simp add: unicodeToCP1252_ascii not_less word_le_nat_alt [of 1])
qed

lemma cp1252ToUnicode_ascii:
  fixes unicode :: unicode_t
  assumes "unicode \<le> 0x7f"
  shows "cp1252ToUnicode (ucast unicode) strictness = (True, unicode)"
proof -
  from assms have lt: "unicode < 2 ^ 7" by (simp add: word_le_nat_alt word_less_nat_alt)
  from assms have u8: "unicode \<le> 0xff" by (simp add: word_le_nat_alt)
  have b7: "bit (ucast unicode XOR (0x80 :: uint8_t)) 7"
    using high_clear [OF lt, of 7] by (simp add: bit_simps)
  have "\<not> (ucast unicode XOR (0x80 :: uint8_t)) < 32"
  proof
    assume "(ucast unicode XOR (0x80 :: uint8_t)) < 32"
    then have "(ucast unicode XOR (0x80 :: uint8_t)) < 2 ^ 5" by simp
    from high_clear [OF this, of 7] b7 show False by simp
  qed
  moreover have "\<not> isCP1252UndefinedC1 unicode"
    using assms by (auto simp add: isCP1252UndefinedC1_def word_le_nat_alt)
  ultimately show ?thesis
    by (simp add: cp1252ToUnicode_def Let_def ucast_byte_id [OF u8])
qed


lemma decodeCP1252_ok:
  assumes g: "no_error (get_errors text)"
    and buf: "buffer_text text = Some buffer"
    and room: "1 \<le> length_text text - offset_text text"
    and b: "buffer ! unat (offset_text text) = ucast unicode"
    and u: "unicode \<le> 0x7f"
  shows "decodeCP1252 text strict coalesce
           = ((if unicode = 0 then DelimitString else 0), unicode, 1)"
proof -
  from get_errors_ok [OF g] have g0: "get_errors text = 0" by simp
  define limit where "limit = length_text text - offset_text text"
  from room have r: "\<not> limit < 1" unfolding limit_def by (auto simp add: word_le_nat_alt)
  show ?thesis
    unfolding decodeCP1252_def g0 Let_def limit_def [symmetric] buf
    using r by (simp add: b cp1252ToUnicode_ascii [OF u] no_error_def)
qed

lemma roundtripCP1252:
  assumes ok: "no_error (get_errors text)"
    and u: "unicode \<le> 0x7f"
    and room: "1 \<le> length_text text - offset_text text"
    and buf: "buffer_text text = Some buffer"
    and len: "unat (length_text text) \<le> length buffer"
  shows "decodeCP1252 (fst (snd (encodeCP1252 text unicode strict))) strict' coalesce
           = ((if unicode = 0 then DelimitString else 0), unicode, 1)"
proof -
  let ?base = "unat (offset_text text)"
  from get_errors_ok [OF ok] have off: "offset_text text \<le> length_text text" by simp
  from room_nat [OF off room len] have fits: "?base + length [ucast unicode :: uint8_t] \<le> length buffer"
    by simp
  note p = poke_buffer [OF buf, of "[ucast unicode]"]
  have "decodeCP1252 (poke text [ucast unicode]) strict' coalesce
           = ((if unicode = 0 then DelimitString else 0), unicode, 1)"
  proof (rule decodeCP1252_ok [OF _ p _ _ u])
    show "no_error (get_errors (poke text [ucast unicode]))" using ok by simp
    show "1 \<le> length_text (poke text [ucast unicode]) - offset_text (poke text [ucast unicode])"
      using room by simp
    show "store buffer ?base [ucast unicode] ! unat (offset_text (poke text [ucast unicode]))
            = ucast unicode"
      using store_nth [OF fits, of 0] by simp
  qed
  then show ?thesis by (simp add: encodeCP1252_ok [OF ok u room])
qed

section \<open>Toolkit: sums of disjoint parts, ranges from masks\<close>

lemma push8_add:
  fixes x :: "32 word" and b :: "8 word"
  shows "push_bit 8 x + ucast b = push_bit 8 x OR ucast b"
  by (rule disjunctive_add) (auto simp add: bit_simps dest: bit_imp_le_length)

lemma or_add_small:
  fixes c y :: "32 word"
  assumes "c AND mask k = 0" "y < 2 ^ k"
  shows "c OR y = c + y"
proof -
  from less_mask_eq [OF assms(2)] have "y AND mask k = y" .
  then have "c AND y = (c AND mask k) AND y" by (metis and.assoc and.commute)
  with assms(1) have "c AND y = 0" by simp
  from disjunctive_add_eq_or [OF this] show ?thesis by simp
qed

lemma surrogate_mask:
  fixes x :: "32 word"
  assumes "x AND 0xfffff800 = 0xd800"
  shows "0xd800 \<le> x \<and> x \<le> 0xdfff"
proof -
  define y where "y = x AND 0x7ff"
  have y: "y \<le> 0x7ff" unfolding y_def by (rule word_and_le1)
  define H where "H = (\<lambda>n. bit (x AND 0xfffff800) n = bit (0xd800 :: 32 word) n)"
  have "\<forall>n<32. H n" using assms by (simp add: H_def)
  then have h: "(\<forall>n<16. H n) \<and> (\<forall>n<16. H (16 + n))" by (simp only: all_lt_32)
  note hb = h [unfolded all_lt_16 H_def, simplified bit_simps, simplified]
  define P where "P = (\<lambda>n. bit x n = bit (0xd800 OR y) n)"
  have "\<forall>n<32. P n"
    apply (simp only: all_lt_32 all_lt_16)
    apply (simp add: P_def y_def bit_simps hb)
    done
  then have x: "x = 0xd800 OR y" by (intro word32_eqI) (simp add: P_def)
  from y have "y < 2 ^ 11" by (simp add: word_le_nat_alt word_less_nat_alt)
  from or_add_small [OF _ this, of "0xd800"] have "0xd800 OR y = 0xd800 + y"
    by (simp add: mask_eq_exp_minus_1)
  with x have x': "x = 0xd800 + y" by simp
  from y have "unat (0xd800 + y) = 0xd800 + unat y"
    by (simp add: unat_add_lem [THEN iffD1] word_le_nat_alt)
  with y show ?thesis unfolding x' by (simp add: word_le_nat_alt)
qed


lemma word32_eq_bits:
  fixes a b :: "32 word"
  assumes "(\<forall>n<16. bit a n = bit b n) \<and> (\<forall>n<16. bit a (16 + n) = bit b (16 + n))"
  shows "a = b"
proof (rule word32_eqI)
  from assms show "\<forall>n<32. bit a n = bit b n"
    by (simp only: all_lt_32 [where Q = "\<lambda>n. bit a n = bit b n"])
qed

lemma surrogate_bits:
  fixes dw :: "32 word"
  assumes "dw < 2 ^ 10"
  shows "(0xd800 OR dw) AND 0xfffff800 = 0xd800"
    and "(0xd800 OR dw) AND 0x400 = 0"
    and "(0xd800 OR dw) AND 0x3ff = dw"
    and "(0xdc00 OR dw) AND 0xfffffc00 = 0xdc00"
    and "(0xdc00 OR dw) AND 0x3ff = dw"
      apply (rule word32_eq_bits, simp only: all_lt_16, simp add: bit_simps high_clear [OF assms])
     apply (rule word32_eq_bits, simp only: all_lt_16, simp add: bit_simps high_clear [OF assms])
    apply (rule word32_eq_bits, simp only: all_lt_16, simp add: bit_simps high_clear [OF assms])
   apply (rule word32_eq_bits, simp only: all_lt_16, simp add: bit_simps high_clear [OF assms])
  apply (rule word32_eq_bits, simp only: all_lt_16, simp add: bit_simps high_clear [OF assms])
  done

text \<open>The offset \<open>unicode - 0x10000\<close> of a supplementary scalar and its two halves.\<close>

lemma surrogate_offset:
  fixes u :: "32 word"
  assumes "0xffff < u" "u \<le> 0x10ffff"
  shows "u - 0x10000 < 2 ^ 20"
proof -
  from assms(1) have "0x10000 \<le> u" by (simp add: word_le_nat_alt word_less_nat_alt)
  then have "unat (u - 0x10000) = unat u - 0x10000" by (simp add: unat_sub)
  with assms show ?thesis by (simp add: word_le_nat_alt word_less_nat_alt)
qed

lemma surrogate_halves:
  fixes w :: "32 word"
  assumes "w < 2 ^ 20"
  shows "drop_bit 10 w < 2 ^ 10" and "w AND 0x3ff < 2 ^ 10"
    and "push_bit 10 (drop_bit 10 w) + (w AND 0x3ff) = w"
proof -
  from assms have "unat w < 1024 * 1024" by (simp add: word_less_nat_alt)
  then have "unat w div 1024 < 1024" by (rule less_mult_imp_div_less)
  then show "drop_bit 10 w < 2 ^ 10"
    by (simp add: word_less_nat_alt unat_drop_bit_eq drop_bit_nat_def)
  have "w AND 0x3ff \<le> 0x3ff" by (rule word_and_le1)
  then show "w AND 0x3ff < 2 ^ 10" by (simp add: word_le_nat_alt word_less_nat_alt)
  have "w AND 0x3ff = take_bit 10 w" by (simp add: take_bit_eq_mask mask_eq_exp_minus_1)
  then show "push_bit 10 (drop_bit 10 w) + (w AND 0x3ff) = w" by (simp add: bits_ident)
qed

section \<open>Round trip: UTF-32\<close>

lemma encodeUTF32_single:
  assumes ok: "no_error (get_errors_aligned text 3)"
    and one: "\<not> (use_cesu \<and> 0xffff < unicode \<and> unicode \<le> 0x10ffff)"
    and room: "4 \<le> length_text text - offset_text text"
  shows "fst (snd (encodeUTF32 text unicode le use_cesu use_ucs4)) =
           poke text (if le
             then [ucast unicode, ucast (signed_drop_bit 8 unicode),
                   ucast (signed_drop_bit 16 unicode), ucast (signed_drop_bit 24 unicode)]
             else [ucast (signed_drop_bit 24 unicode), ucast (signed_drop_bit 16 unicode),
                   ucast (signed_drop_bit 8 unicode), ucast unicode])"
proof -
  from get_errors_aligned_ok [OF ok] have g: "get_errors_aligned text 3 = 0" by simp
  define limit where "limit = length_text text - offset_text text"
  from room have r: "\<not> limit < 4" by (simp add: limit_def not_less)
  from one have sp: "any_of (encodeUTF32_flags 0 unicode use_cesu use_ucs4) SurrogatePair = False"
    by (simp add: encodeUTF32_flags_props)
  show ?thesis
    unfolding encodeUTF32_def g no_error_def Let_def limit_def [symmetric]
    using r by (simp add: encodeUTF32_flags_props(1) sp)
qed

lemma encodeUTF32_pair:
  assumes ok: "no_error (get_errors_aligned text 3)"
    and two: "use_cesu" "0xffff < unicode" "unicode \<le> 0x10ffff"
    and room: "8 \<le> length_text text - offset_text text"
  shows "fst (snd (encodeUTF32 text unicode le use_cesu use_ucs4)) =
           poke text (if le
             then [ucast (surrogate_pair unicode),
                   ucast (signed_drop_bit 8 (surrogate_pair unicode)), 0, 0,
                   ucast (signed_drop_bit 16 (surrogate_pair unicode)),
                   ucast (signed_drop_bit 24 (surrogate_pair unicode)), 0, 0]
             else [0, 0, ucast (signed_drop_bit 8 (surrogate_pair unicode)),
                   ucast (surrogate_pair unicode), 0, 0,
                   ucast (signed_drop_bit 24 (surrogate_pair unicode)),
                   ucast (signed_drop_bit 16 (surrogate_pair unicode))])"
proof -
  from get_errors_aligned_ok [OF ok] have g: "get_errors_aligned text 3 = 0" by simp
  define limit where "limit = length_text text - offset_text text"
  from room have r: "\<not> limit < 8" by (simp add: limit_def not_less)
  from two have sp: "any_of (encodeUTF32_flags 0 unicode use_cesu use_ucs4) SurrogatePair = True"
    by (simp add: encodeUTF32_flags_props)
  show ?thesis
    unfolding encodeUTF32_def g no_error_def Let_def limit_def [symmetric]
    using r by (simp add: encodeUTF32_flags_props(1) sp)
qed

text \<open>The unit read back from four stored bytes.\<close>

lemma unit32_or:
  "unit32 buffer at le =
     (if le
      then push_bit 8 (push_bit 8 (push_bit 8 (ucast (buffer ! (at + 3)))
             OR ucast (buffer ! (at + 2))) OR ucast (buffer ! (at + 1))) OR ucast (buffer ! at)
      else push_bit 8 (push_bit 8 (push_bit 8 (ucast (buffer ! at))
             OR ucast (buffer ! (at + 1))) OR ucast (buffer ! (at + 2))) OR ucast (buffer ! (at + 3)))"
  unfolding unit32_def by (simp only: push8_add)

lemma unit32_value:
  fixes u :: "32 word"
  shows "push_bit 8 (push_bit 8 (push_bit 8 (ucast (ucast (signed_drop_bit 24 u) :: 8 word))
             OR ucast (ucast (signed_drop_bit 16 u) :: 8 word))
             OR ucast (ucast (signed_drop_bit 8 u) :: 8 word)) OR ucast (ucast u :: 8 word) = u"
    (is "?l = u")
proof -
  define P where "P = (\<lambda>n. bit ?l n = bit u n)"
  have "\<forall>n<32. P n"
    apply (simp only: all_lt_32 all_lt_16)
    apply (simp add: P_def bit_simps)
    done
  then show ?thesis by (intro word32_eqI) (simp add: P_def)
qed


lemma decodeUTF32_single:
  assumes g: "no_error (get_errors_aligned text 3)"
    and buf: "buffer_text text = Some buffer"
    and room: "4 \<le> length_text text - offset_text text"
    and unit: "unit32 buffer (unat (offset_text text)) le = unicode"
    and valid: "unicode \<le> 0x10ffff" "\<not> (0xd800 \<le> unicode \<and> unicode \<le> 0xdfff)"
  shows "snd (decodeUTF32 text le use_cesu use_ucs4) = (unicode, 4) \<and>
         no_error (fst (decodeUTF32 text le use_cesu use_ucs4))"
proof -
  from get_errors_aligned_ok [OF g] have g0: "get_errors_aligned text 3 = 0" by simp
  define limit where "limit = length_text text - offset_text text"
  from room have r: "(limit < 4) = False" by (simp add: limit_def not_less)
  from valid(2) surrogate_mask [of unicode]
  have ns: "(unicode AND 0xfffff800 = 0xd800) = False" by blast
  from valid(1) have hi: "(0x10ffff < unicode) = False" by (simp add: not_less)
  show ?thesis
    unfolding decodeUTF32_def g0 Let_def limit_def [symmetric] buf
    by (simp add: unit r ns hi no_error_def)
qed


lemma decodeUTF32_pair:
  assumes g: "no_error (get_errors_aligned text 3)"
    and buf: "buffer_text text = Some buffer"
    and room: "8 \<le> length_text text - offset_text text"
    and hi: "unit32 buffer (unat (offset_text text)) le = 0xd800 OR dw"
    and lo: "unit32 buffer (unat (offset_text text) + 4) le = 0xdc00 OR tw"
    and small: "dw < 2 ^ 10" "tw < 2 ^ 10"
  shows "snd (decodeUTF32 text le True use_ucs4) = (push_bit 10 dw + tw + 0x10000, 8) \<and>
         no_error (fst (decodeUTF32 text le True use_ucs4))"
proof -
  from get_errors_aligned_ok [OF g] have g0: "get_errors_aligned text 3 = 0" by simp
  define limit where "limit = length_text text - offset_text text"
  from room have r: "(limit < 4) = False" "(limit < 8) = False"
    by (simp_all add: limit_def not_less word_le_nat_alt)
  note hb = surrogate_bits [OF small(1)]
  note lb = surrogate_bits [OF small(2)]
  from surrogate_mask [OF hb(1)]
  have ord: "(0xd800 OR dw = 0) = False" "(0xd800 \<le> 0xd800 OR dw) = True"
    "(0x10ffff < 0xd800 OR dw) = False" "(0xfdd0 \<le> 0xd800 OR dw) = False"
    by (auto simp add: word_le_nat_alt word_less_nat_alt)
  have e: "\<not> error ((IrregularForm OR HighSurrogate) XOR
              (SurrogatePair OR Supplementary OR HighSurrogate OR IrregularForm))"
    by (simp add: error_def any_of_def ErrorsMask_def bits_defs)
  show ?thesis
    unfolding decodeUTF32_def g0 Let_def limit_def [symmetric] buf
    by (simp add: hi lo r hb lb ord no_error_def e)
qed


lemma unit32_store:
  assumes "at + length bs \<le> length buffer" "i + 4 \<le> length bs"
  shows "unit32 (store buffer at bs) (at + i) le =
     (if le
      then push_bit 8 (push_bit 8 (push_bit 8 (ucast (bs ! (i + 3)))
             OR ucast (bs ! (i + 2))) OR ucast (bs ! (i + 1))) OR ucast (bs ! i)
      else push_bit 8 (push_bit 8 (push_bit 8 (ucast (bs ! i))
             OR ucast (bs ! (i + 1))) OR ucast (bs ! (i + 2))) OR ucast (bs ! (i + 3)))"
proof -
  from assms(2) have "i < length bs" "i + 1 < length bs" "i + 2 < length bs" "i + 3 < length bs"
    by simp_all
  from this [THEN store_nth [OF assms(1)]] show ?thesis
    by (simp add: unit32_or add.assoc)
qed

text \<open>The two 16-bit halves of \<open>surrogate_pair\<close>, read back from their bytes.\<close>

lemma surrogate_units:
  fixes w :: "32 word"
  assumes "w < 2 ^ 20"
  shows "push_bit 8 (ucast (ucast (signed_drop_bit 8
            (((signed_drop_bit 10 w OR push_bit 16 w) AND 0x03ff03ff) OR 0xdc00d800)) :: 8 word))
          OR ucast (ucast
            (((signed_drop_bit 10 w OR push_bit 16 w) AND 0x03ff03ff) OR 0xdc00d800) :: 8 word)
          = 0xd800 OR drop_bit 10 w"
    and "push_bit 8 (ucast (ucast (signed_drop_bit 24
            (((signed_drop_bit 10 w OR push_bit 16 w) AND 0x03ff03ff) OR 0xdc00d800)) :: 8 word))
          OR ucast (ucast (signed_drop_bit 16
            (((signed_drop_bit 10 w OR push_bit 16 w) AND 0x03ff03ff) OR 0xdc00d800)) :: 8 word)
          = 0xdc00 OR (w AND 0x3ff)"
   apply (rule word32_eq_bits, simp only: all_lt_16, simp add: bit_simps high_clear [OF assms])
  apply (rule word32_eq_bits, simp only: all_lt_16, simp add: bit_simps high_clear [OF assms])
  done

lemma surrogate_pair_units:
  assumes "0xffff < u" "u \<le> 0x10ffff"
  shows "push_bit 8 (ucast (ucast (signed_drop_bit 8 (surrogate_pair u)) :: 8 word))
          OR ucast (ucast (surrogate_pair u) :: 8 word) = 0xd800 OR drop_bit 10 (u - 0x10000)"
    and "push_bit 8 (ucast (ucast (signed_drop_bit 24 (surrogate_pair u)) :: 8 word))
          OR ucast (ucast (signed_drop_bit 16 (surrogate_pair u)) :: 8 word)
          = 0xdc00 OR ((u - 0x10000) AND 0x3ff)"
  using surrogate_units [OF surrogate_offset [OF assms]]
  by (simp_all only: surrogate_pair_def Let_def)


lemma unit32_value_flat:
  fixes u :: "32 word"
  shows "((push_bit 24 (ucast (ucast (signed_drop_bit 24 u) :: 8 word)) OR
           push_bit 16 (ucast (ucast (signed_drop_bit 16 u) :: 8 word))) OR
           push_bit 8 (ucast (ucast (signed_drop_bit 8 u) :: 8 word))) OR
           ucast (ucast u :: 8 word) = u"
  using unit32_value [of u] by (simp add: push_bit_or)

lemma unit32_single:
  assumes "at + 4 \<le> length buffer"
  shows "unit32 (store buffer at (if le
             then [ucast u, ucast (signed_drop_bit 8 u),
                   ucast (signed_drop_bit 16 u), ucast (signed_drop_bit 24 u)]
             else [ucast (signed_drop_bit 24 u), ucast (signed_drop_bit 16 u),
                   ucast (signed_drop_bit 8 u), ucast u])) at le = u"
proof (cases le)
  case True
  with assms unit32_store [of at "[ucast u, ucast (signed_drop_bit 8 u),
      ucast (signed_drop_bit 16 u), ucast (signed_drop_bit 24 u)]" buffer 0 True]
  show ?thesis by (simp add: unit32_value_flat)
next
  case False
  with assms unit32_store [of at "[ucast (signed_drop_bit 24 u), ucast (signed_drop_bit 16 u),
      ucast (signed_drop_bit 8 u), ucast u]" buffer 0 False]
  show ?thesis by (simp add: unit32_value_flat)
qed

lemma unit32_pair:
  fixes le :: bool and u :: unicode_t
  assumes fits: "at + 8 \<le> length buffer" and u: "0xffff < u" "u \<le> 0x10ffff"
  defines "bs \<equiv> (if le
             then [ucast (surrogate_pair u), ucast (signed_drop_bit 8 (surrogate_pair u)), 0, 0,
                   ucast (signed_drop_bit 16 (surrogate_pair u)),
                   ucast (signed_drop_bit 24 (surrogate_pair u)), 0, 0]
             else [0, 0, ucast (signed_drop_bit 8 (surrogate_pair u)),
                   ucast (surrogate_pair u), 0, 0,
                   ucast (signed_drop_bit 24 (surrogate_pair u)),
                   ucast (signed_drop_bit 16 (surrogate_pair u))])"
  shows "unit32 (store buffer at bs) at le = 0xd800 OR drop_bit 10 (u - 0x10000)"
    and "unit32 (store buffer at bs) (at + 4) le = 0xdc00 OR ((u - 0x10000) AND 0x3ff)"
proof -
  have l: "length bs = 8" by (simp add: bs_def)
  from fits l have f: "at + length bs \<le> length buffer" by simp
  from unit32_store [OF f, of 0 le] l
  show "unit32 (store buffer at bs) at le = 0xd800 OR drop_bit 10 (u - 0x10000)"
    by (cases le) (simp_all add: bs_def surrogate_pair_units [OF u])
  from unit32_store [OF f, of 4 le] l
  show "unit32 (store buffer at bs) (at + 4) le = 0xdc00 OR ((u - 0x10000) AND 0x3ff)"
    by (cases le) (simp_all add: bs_def surrogate_pair_units [OF u])
qed


lemma roundtripUTF32:
  assumes ok: "no_error (get_errors_aligned text 3)"
    and valid: "unicode \<le> 0x10ffff" "\<not> (0xd800 \<le> unicode \<and> unicode \<le> 0xdfff)"
    and room: "lenUTF32 unicode use_cesu use_ucs4 \<le> length_text text - offset_text text"
    and buf: "buffer_text text = Some buffer"
    and len: "unat (length_text text) \<le> length buffer"
  shows "snd (decodeUTF32 (fst (snd (encodeUTF32 text unicode le use_cesu use_ucs4)))
               le use_cesu use_ucs4) = (unicode, lenUTF32 unicode use_cesu use_ucs4) \<and>
         no_error (fst (decodeUTF32 (fst (snd (encodeUTF32 text unicode le use_cesu use_ucs4)))
               le use_cesu use_ucs4))"
proof -
  let ?base = "unat (offset_text text)"
  from get_errors_aligned_ok [OF ok] have "no_error (get_errors text)" by simp
  from get_errors_ok [OF this] have off: "offset_text text \<le> length_text text" by simp
  show ?thesis
  proof (cases "use_cesu \<and> 0xffff < unicode")
    case False
    then have one: "\<not> (use_cesu \<and> 0xffff < unicode \<and> unicode \<le> 0x10ffff)" by blast
    from False valid(1) have l: "lenUTF32 unicode use_cesu use_ucs4 = 4"
      by (auto simp add: lenUTF32_def word_le_nat_alt word_less_nat_alt)
    from room have r: "4 \<le> length_text text - offset_text text" by (simp add: l)
    from room_nat [OF off r len] have fits: "?base + 4 \<le> length buffer" by simp
    define bs :: "uint8_t list" where "bs = (if le
             then [ucast unicode, ucast (signed_drop_bit 8 unicode),
                   ucast (signed_drop_bit 16 unicode), ucast (signed_drop_bit 24 unicode)]
             else [ucast (signed_drop_bit 24 unicode), ucast (signed_drop_bit 16 unicode),
                   ucast (signed_drop_bit 8 unicode), ucast unicode])"
    have t: "fst (snd (encodeUTF32 text unicode le use_cesu use_ucs4)) = poke text bs"
      unfolding bs_def by (rule encodeUTF32_single [OF ok one r])
    have "snd (decodeUTF32 (poke text bs) le use_cesu use_ucs4) = (unicode, 4) \<and>
          no_error (fst (decodeUTF32 (poke text bs) le use_cesu use_ucs4))"
    proof (rule decodeUTF32_single [OF _ poke_buffer [OF buf] _ _ valid])
      show "no_error (get_errors_aligned (poke text bs) 3)" using ok by simp
      show "4 \<le> length_text (poke text bs) - offset_text (poke text bs)" using r by simp
      show "unit32 (store buffer ?base bs) (unat (offset_text (poke text bs))) le = unicode"
        using unit32_single [OF fits, of le unicode] by (simp add: bs_def)
    qed
    then show ?thesis by (simp add: t l)
  next
    case True
    with valid(1) have two: "use_cesu" "0xffff < unicode" "unicode \<le> 0x10ffff" by simp_all
    from two have l: "lenUTF32 unicode use_cesu use_ucs4 = 8"
      by (auto simp add: lenUTF32_def word_le_nat_alt word_less_nat_alt)
    from room have r: "8 \<le> length_text text - offset_text text" by (simp add: l)
    from room_nat [OF off r len] have fits: "?base + 8 \<le> length buffer" by simp
    define bs :: "uint8_t list" where "bs = (if le
             then [ucast (surrogate_pair unicode),
                   ucast (signed_drop_bit 8 (surrogate_pair unicode)), 0, 0,
                   ucast (signed_drop_bit 16 (surrogate_pair unicode)),
                   ucast (signed_drop_bit 24 (surrogate_pair unicode)), 0, 0]
             else [0, 0, ucast (signed_drop_bit 8 (surrogate_pair unicode)),
                   ucast (surrogate_pair unicode), 0, 0,
                   ucast (signed_drop_bit 24 (surrogate_pair unicode)),
                   ucast (signed_drop_bit 16 (surrogate_pair unicode))])"
    have t: "fst (snd (encodeUTF32 text unicode le use_cesu use_ucs4)) = poke text bs"
      unfolding bs_def by (rule encodeUTF32_pair [OF ok two r])
    note w = surrogate_halves [OF surrogate_offset [OF two(2,3)]]
    note un = unit32_pair [OF fits two(2,3), of le, folded bs_def]
    have "snd (decodeUTF32 (poke text bs) le True use_ucs4)
            = (push_bit 10 (drop_bit 10 (unicode - 0x10000))
                 + ((unicode - 0x10000) AND 0x3ff) + 0x10000, 8) \<and>
          no_error (fst (decodeUTF32 (poke text bs) le True use_ucs4))"
    proof (rule decodeUTF32_pair [OF _ poke_buffer [OF buf] _ _ _ w(1,2)])
      show "no_error (get_errors_aligned (poke text bs) 3)" using ok by simp
      show "8 \<le> length_text (poke text bs) - offset_text (poke text bs)" using r by simp
      show "unit32 (store buffer ?base bs) (unat (offset_text (poke text bs))) le
              = 0xd800 OR drop_bit 10 (unicode - 0x10000)"
        using un(1) by simp
      show "unit32 (store buffer ?base bs) (unat (offset_text (poke text bs)) + 4) le
              = 0xdc00 OR ((unicode - 0x10000) AND 0x3ff)"
        using un(2) by simp
    qed
    with two(1) show ?thesis unfolding t l by (simp add: w(3))
  qed
qed

section \<open>Round trip: UTF-16\<close>

lemma encodeUTF16_single:
  assumes ok: "no_error (get_errors_aligned text 1)"
    and one: "unicode \<le> 0xffff"
    and room: "2 \<le> length_text text - offset_text text"
  shows "fst (snd (encodeUTF16 text unicode le use_ucs2)) =
           poke text (if le then [ucast unicode, ucast (signed_drop_bit 8 unicode)]
                      else [ucast (signed_drop_bit 8 unicode), ucast unicode])"
proof -
  from get_errors_aligned_ok [OF ok] have g: "get_errors_aligned text 1 = 0" by simp
  define limit where "limit = length_text text - offset_text text"
  from room have r: "\<not> limit < 2" by (simp add: limit_def not_less)
  from one have sp: "any_of (encodeUTF16_flags 0 unicode use_ucs2) SurrogatePair = False"
    and er: "error (encodeUTF16_flags 0 unicode use_ucs2) = False"
    by (auto simp add: encodeUTF16_flags_props word_le_nat_alt word_less_nat_alt)
  show ?thesis
    unfolding encodeUTF16_def g no_error_def Let_def limit_def [symmetric]
    using r by (simp add: er sp)
qed

lemma encodeUTF16_pair:
  assumes ok: "no_error (get_errors_aligned text 1)"
    and two: "\<not> use_ucs2" "0xffff < unicode" "unicode \<le> 0x10ffff"
    and room: "4 \<le> length_text text - offset_text text"
  shows "fst (snd (encodeUTF16 text unicode le use_ucs2)) =
           poke text (if le
             then [ucast (surrogate_pair unicode),
                   ucast (signed_drop_bit 8 (surrogate_pair unicode)),
                   ucast (signed_drop_bit 16 (surrogate_pair unicode)),
                   ucast (signed_drop_bit 24 (surrogate_pair unicode))]
             else [ucast (signed_drop_bit 8 (surrogate_pair unicode)),
                   ucast (surrogate_pair unicode),
                   ucast (signed_drop_bit 24 (surrogate_pair unicode)),
                   ucast (signed_drop_bit 16 (surrogate_pair unicode))])"
proof -
  from get_errors_aligned_ok [OF ok] have g: "get_errors_aligned text 1 = 0" by simp
  define limit where "limit = length_text text - offset_text text"
  from room have r: "\<not> limit < 4" by (simp add: limit_def not_less)
  from two have sp: "any_of (encodeUTF16_flags 0 unicode use_ucs2) SurrogatePair = True"
    and er: "error (encodeUTF16_flags 0 unicode use_ucs2) = False"
    by (auto simp add: encodeUTF16_flags_props word_le_nat_alt word_less_nat_alt)
  show ?thesis
    unfolding encodeUTF16_def g no_error_def Let_def limit_def [symmetric]
    using r by (simp add: er sp)
qed

text \<open>The 16-bit code unit at \<open>buffer[at], buffer[at + 1]\<close>, as \<open>decodeUTF16\<close> reads it.\<close>

lemma unit16_value:
  fixes u :: "32 word"
  assumes "u \<le> 0xffff"
  shows "push_bit 8 (ucast (ucast (signed_drop_bit 8 u) :: 8 word)) OR ucast (ucast u :: 8 word) = u"
proof -
  from assms have lt: "u < 2 ^ 16" by (simp add: word_le_nat_alt word_less_nat_alt)
  show ?thesis
    by (rule word32_eq_bits, simp only: all_lt_16, simp add: bit_simps high_clear [OF lt])
qed

lemma decodeUTF16_single:
  assumes g: "no_error (get_errors_aligned text 1)"
    and buf: "buffer_text text = Some buffer"
    and room: "2 \<le> length_text text - offset_text text"
    and unit: "(if le then push_bit 8 (ucast (buffer ! (unat (offset_text text) + 1)))
                             OR ucast (buffer ! unat (offset_text text))
               else push_bit 8 (ucast (buffer ! unat (offset_text text)))
                             OR ucast (buffer ! (unat (offset_text text) + 1))) = unicode"
    and valid: "\<not> (0xd800 \<le> unicode \<and> unicode \<le> 0xdfff)"
  shows "snd (decodeUTF16 text le use_ucs2) = (unicode, 2) \<and>
         no_error (fst (decodeUTF16 text le use_ucs2))"
proof -
  from get_errors_aligned_ok [OF g] have g0: "get_errors_aligned text 1 = 0" by simp
  define limit where "limit = length_text text - offset_text text"
  from room have r: "(limit < 2) = False" by (simp add: limit_def not_less)
  from valid surrogate_mask [of unicode]
  have ns: "(unicode AND 0xfffff800 = 0xd800) = False" by blast
  show ?thesis
    unfolding decodeUTF16_def g0 Let_def limit_def [symmetric] buf push8_add
    using unit by (cases le) (simp_all add: r ns no_error_def)
qed


lemma decodeUTF16_pair:
  assumes g: "no_error (get_errors_aligned text 1)"
    and buf: "buffer_text text = Some buffer"
    and room: "4 \<le> length_text text - offset_text text"
    and hi: "(if le then push_bit 8 (ucast (buffer ! (unat (offset_text text) + 1)))
                             OR ucast (buffer ! unat (offset_text text))
               else push_bit 8 (ucast (buffer ! unat (offset_text text)))
                             OR ucast (buffer ! (unat (offset_text text) + 1))) = 0xd800 OR dw"
    and lo: "(if le then push_bit 8 (ucast (buffer ! (unat (offset_text text) + 3)))
                             OR ucast (buffer ! (unat (offset_text text) + 2))
               else push_bit 8 (ucast (buffer ! (unat (offset_text text) + 2)))
                             OR ucast (buffer ! (unat (offset_text text) + 3))) = 0xdc00 OR tw"
    and small: "dw < 2 ^ 10" "tw < 2 ^ 10"
  shows "snd (decodeUTF16 text le False) = (push_bit 10 dw + tw + 0x10000, 4) \<and>
         no_error (fst (decodeUTF16 text le False))"
proof -
  from get_errors_aligned_ok [OF g] have g0: "get_errors_aligned text 1 = 0" by simp
  define limit where "limit = length_text text - offset_text text"
  from room have r: "(limit < 2) = False" "(limit < 4) = False"
    by (simp_all add: limit_def not_less word_le_nat_alt)
  note hb = surrogate_bits [OF small(1)]
  note lb = surrogate_bits [OF small(2)]
  from surrogate_mask [OF hb(1)]
  have ord: "(0xd800 OR dw = 0) = False" "(0xd800 \<le> 0xd800 OR dw) = True"
    "(0xfdd0 \<le> 0xd800 OR dw) = False"
    by (auto simp add: word_le_nat_alt word_less_nat_alt)
  have e: "\<not> error ((IrregularForm OR HighSurrogate) XOR
              (SurrogatePair OR Supplementary OR HighSurrogate OR IrregularForm))"
    by (simp add: error_def any_of_def ErrorsMask_def bits_defs)
  show ?thesis
    unfolding decodeUTF16_def g0 Let_def limit_def [symmetric] buf push8_add
    using hi lo by (cases le) (simp_all add: r hb lb ord no_error_def e)
qed

lemma unit16_store:
  assumes "at + length bs \<le> length buffer" "i + 2 \<le> length bs"
  shows "store buffer at bs ! (at + i) = bs ! i"
    and "store buffer at bs ! (at + (i + 1)) = bs ! (i + 1)"
proof -
  from assms(2) have "i < length bs" "i + 1 < length bs" by simp_all
  from this [THEN store_nth [OF assms(1)]]
  show "store buffer at bs ! (at + i) = bs ! i"
    and "store buffer at bs ! (at + (i + 1)) = bs ! (i + 1)" by simp_all
qed

lemma roundtripUTF16:
  assumes ok: "no_error (get_errors_aligned text 1)"
    and valid: "unicode \<le> 0x10ffff" "\<not> (0xd800 \<le> unicode \<and> unicode \<le> 0xdfff)"
    and nz: "lenUTF16 unicode use_ucs2 \<noteq> 0"
    and room: "lenUTF16 unicode use_ucs2 \<le> length_text text - offset_text text"
    and buf: "buffer_text text = Some buffer"
    and len: "unat (length_text text) \<le> length buffer"
  shows "snd (decodeUTF16 (fst (snd (encodeUTF16 text unicode le use_ucs2))) le use_ucs2)
           = (unicode, lenUTF16 unicode use_ucs2) \<and>
         no_error (fst (decodeUTF16 (fst (snd (encodeUTF16 text unicode le use_ucs2)))
                     le use_ucs2))"
proof -
  let ?base = "unat (offset_text text)"
  from get_errors_aligned_ok [OF ok] have "no_error (get_errors text)" by simp
  from get_errors_ok [OF this] have off: "offset_text text \<le> length_text text" by simp
  show ?thesis
  proof (cases "unicode \<le> 0xffff")
    case True
    then have l: "lenUTF16 unicode use_ucs2 = 2"
      by (auto simp add: lenUTF16_def word_le_nat_alt word_less_nat_alt)
    from room have r: "2 \<le> length_text text - offset_text text" by (simp add: l)
    from room_nat [OF off r len] have fits: "?base + 2 \<le> length buffer" by simp
    define bs :: "uint8_t list" where
      "bs = (if le then [ucast unicode, ucast (signed_drop_bit 8 unicode)]
             else [ucast (signed_drop_bit 8 unicode), ucast unicode])"
    have t: "fst (snd (encodeUTF16 text unicode le use_ucs2)) = poke text bs"
      unfolding bs_def by (rule encodeUTF16_single [OF ok True r])
    have lb: "length bs = 2" by (simp add: bs_def)
    from fits lb have f: "?base + length bs \<le> length buffer" by simp
    note st = unit16_store [OF f, of 0]
    have "snd (decodeUTF16 (poke text bs) le use_ucs2) = (unicode, 2) \<and>
          no_error (fst (decodeUTF16 (poke text bs) le use_ucs2))"
    proof (rule decodeUTF16_single [OF _ poke_buffer [OF buf] _ _ valid(2)])
      show "no_error (get_errors_aligned (poke text bs) 1)" using ok by simp
      show "2 \<le> length_text (poke text bs) - offset_text (poke text bs)" using r by simp
      show "(if le then push_bit 8 (ucast (store buffer ?base bs !
                              (unat (offset_text (poke text bs)) + 1)))
                          OR ucast (store buffer ?base bs ! unat (offset_text (poke text bs)))
             else push_bit 8 (ucast (store buffer ?base bs ! unat (offset_text (poke text bs))))
                          OR ucast (store buffer ?base bs !
                              (unat (offset_text (poke text bs)) + 1))) = unicode"
        using st lb unit16_value [OF True] by (cases le) (simp_all add: bs_def)
    qed
    then show ?thesis unfolding t l by simp
  next
    case False
    with valid(1) nz have two: "\<not> use_ucs2" "0xffff < unicode" "unicode \<le> 0x10ffff"
      by (auto simp add: lenUTF16_def not_le split: if_splits)
    from two have l: "lenUTF16 unicode use_ucs2 = 4"
      by (auto simp add: lenUTF16_def word_le_nat_alt word_less_nat_alt)
    from room have r: "4 \<le> length_text text - offset_text text" by (simp add: l)
    from room_nat [OF off r len] have fits: "?base + 4 \<le> length buffer" by simp
    define bs :: "uint8_t list" where "bs = (if le
             then [ucast (surrogate_pair unicode),
                   ucast (signed_drop_bit 8 (surrogate_pair unicode)),
                   ucast (signed_drop_bit 16 (surrogate_pair unicode)),
                   ucast (signed_drop_bit 24 (surrogate_pair unicode))]
             else [ucast (signed_drop_bit 8 (surrogate_pair unicode)),
                   ucast (surrogate_pair unicode),
                   ucast (signed_drop_bit 24 (surrogate_pair unicode)),
                   ucast (signed_drop_bit 16 (surrogate_pair unicode))])"
    have t: "fst (snd (encodeUTF16 text unicode le use_ucs2)) = poke text bs"
      unfolding bs_def by (rule encodeUTF16_pair [OF ok two r])
    have lb: "length bs = 4" by (simp add: bs_def)
    from fits lb have f: "?base + length bs \<le> length buffer" by simp
    note st0 = unit16_store [OF f, of 0]
    note st2 = unit16_store [OF f, of 2]
    note w = surrogate_halves [OF surrogate_offset [OF two(2,3)]]
    note sv = surrogate_pair_units [OF two(2,3)]
    have "snd (decodeUTF16 (poke text bs) le False)
            = (push_bit 10 (drop_bit 10 (unicode - 0x10000))
                 + ((unicode - 0x10000) AND 0x3ff) + 0x10000, 4) \<and>
          no_error (fst (decodeUTF16 (poke text bs) le False))"
    proof (rule decodeUTF16_pair [OF _ poke_buffer [OF buf] _ _ _ w(1,2)])
      show "no_error (get_errors_aligned (poke text bs) 1)" using ok by simp
      show "4 \<le> length_text (poke text bs) - offset_text (poke text bs)" using r by simp
      show "(if le then push_bit 8 (ucast (store buffer ?base bs !
                              (unat (offset_text (poke text bs)) + 1)))
                          OR ucast (store buffer ?base bs ! unat (offset_text (poke text bs)))
             else push_bit 8 (ucast (store buffer ?base bs ! unat (offset_text (poke text bs))))
                          OR ucast (store buffer ?base bs !
                              (unat (offset_text (poke text bs)) + 1)))
              = 0xd800 OR drop_bit 10 (unicode - 0x10000)"
        using st0 lb sv(1) by (cases le) (simp_all add: bs_def)
      show "(if le then push_bit 8 (ucast (store buffer ?base bs !
                              (unat (offset_text (poke text bs)) + 3)))
                          OR ucast (store buffer ?base bs !
                              (unat (offset_text (poke text bs)) + 2))
             else push_bit 8 (ucast (store buffer ?base bs !
                              (unat (offset_text (poke text bs)) + 2)))
                          OR ucast (store buffer ?base bs !
                              (unat (offset_text (poke text bs)) + 3)))
              = 0xdc00 OR ((unicode - 0x10000) AND 0x3ff)"
        using st2 lb sv(2) by (cases le) (simp_all add: bs_def)
    qed
    with two(1) show ?thesis unfolding t l by (simp add: w(3))
  qed
qed

section \<open>Round trip: UTF-8\<close>

subsection \<open>Lead and continuation bytes\<close>

lemma lead_bytes:
  fixes b :: uint8_t
  shows "b AND 0x80 = 0 \<Longrightarrow> b + 2 \<le> 0xc1 \<and> \<not> 0x7f < b"
    and "b AND 0xe0 = 0xc0 \<Longrightarrow> \<not> b + 2 \<le> 0xc1 \<and> lead_length b = (2, 0)"
    and "b AND 0xf0 = 0xe0 \<Longrightarrow> \<not> b + 2 \<le> 0xc1 \<and> lead_length b = (3, 0)"
    and "b AND 0xf8 = 0xf0 \<Longrightarrow> \<not> b + 2 \<le> 0xc1 \<and> lead_length b = (4, 0)"
proof -
  define P1 where "P1 = (\<lambda>b :: uint8_t. b AND 0x80 = 0 \<longrightarrow> b + 2 \<le> 0xc1 \<and> \<not> 0x7f < b)"
  define P2 where "P2 = (\<lambda>b :: uint8_t. b AND 0xe0 = 0xc0 \<longrightarrow>
                            \<not> b + 2 \<le> 0xc1 \<and> lead_length b = (2, 0))"
  define P3 where "P3 = (\<lambda>b :: uint8_t. b AND 0xf0 = 0xe0 \<longrightarrow>
                            \<not> b + 2 \<le> 0xc1 \<and> lead_length b = (3, 0))"
  define P4 where "P4 = (\<lambda>b :: uint8_t. b AND 0xf8 = 0xf0 \<longrightarrow>
                            \<not> b + 2 \<le> 0xc1 \<and> lead_length b = (4, 0))"
  have "P1 b"
    apply (rule byte_exhaust [of P1])
    apply (simp only: all_lt_16)
    apply (simp add: P1_def)
    done
  then show "b AND 0x80 = 0 \<Longrightarrow> b + 2 \<le> 0xc1 \<and> \<not> 0x7f < b" by (simp add: P1_def)
  have "P2 b"
    apply (rule byte_exhaust [of P2])
    apply (simp only: all_lt_16)
    apply (simp add: P2_def lead_length_def)
    done
  then show "b AND 0xe0 = 0xc0 \<Longrightarrow> \<not> b + 2 \<le> 0xc1 \<and> lead_length b = (2, 0)"
    by (simp add: P2_def)
  have "P3 b"
    apply (rule byte_exhaust [of P3])
    apply (simp only: all_lt_16)
    apply (simp add: P3_def lead_length_def)
    done
  then show "b AND 0xf0 = 0xe0 \<Longrightarrow> \<not> b + 2 \<le> 0xc1 \<and> lead_length b = (3, 0)"
    by (simp add: P3_def)
  have "P4 b"
    apply (rule byte_exhaust [of P4])
    apply (simp only: all_lt_16)
    apply (simp add: P4_def lead_length_def)
    done
  then show "b AND 0xf8 = 0xf0 \<Longrightarrow> \<not> b + 2 \<le> 0xc1 \<and> lead_length b = (4, 0)"
    by (simp add: P4_def)
qed

lemma fetch_continue_step:
  assumes "index < count" "buffer ! (base + unat index) AND 0xc0 = 0x80"
  shows "fetch_continue buffer base index count val errors =
           fetch_continue buffer base (index + 1) count
             (push_bit 6 val OR (ucast (buffer ! (base + unat index)) AND 0x3f)) errors"
  using assms by (subst fetch_continue.simps) (simp add: Let_def)

lemma fetch_continue_end:
  "\<not> index < count \<Longrightarrow> fetch_continue buffer base index count val errors = (count, val, errors)"
  by (subst fetch_continue.simps) simp

lemma fetch_finish_plain:
  "fetch_finish unicode (2, val, 0) =
     (if signed_drop_bit 7 val = 0
      then (if val = 0 then ModifiedUTF8 else OverlongUTF8, val, 2) else (0, val, 2))"
  "fetch_finish unicode (3, val, 0) =
     (if signed_drop_bit 11 val = 0 then (OverlongUTF8, val, 3) else (0, val, 3))"
  "fetch_finish unicode (4, val, 0) =
     (if signed_drop_bit 16 val = 0 then (OverlongUTF8, val, 4) else (0, val, 4))"
  by (simp_all add: fetch_finish_def Let_def no_error_def)


subsection \<open>fetchUTF8 on a well-formed sequence\<close>

lemma fetchUTF8_1:
  assumes "buffer ! base AND 0x80 = 0" "1 \<le> sz"
  shows "fetchUTF8 buffer base sz co = (0, ucast (buffer ! base), 1)"
proof -
  from assms(2) have sz: "(sz < 1) = False" by (auto simp add: word_le_nat_alt)
  from lead_bytes(1) [OF assms(1)] show ?thesis
    unfolding fetchUTF8_def Let_def sz by simp
qed

lemma fetchUTF8_2:
  assumes b0: "buffer ! base AND 0xe0 = 0xc0"
    and b1: "buffer ! (base + 1) AND 0xc0 = 0x80"
    and sz: "2 \<le> sz"
  shows "fetchUTF8 buffer base sz co =
           fetch_finish (ucast (buffer ! base))
             (2, push_bit 6 (ucast (buffer ! base) AND 0x1f)
                   OR (ucast (buffer ! (base + 1)) AND 0x3f), 0)"
proof -
  from sz have s: "(sz < 1) = False" "(2 > sz) = False"
    by (auto simp add: word_le_nat_alt word_less_nat_alt)
  note l = lead_bytes(2) [OF b0]
  have c: "fetch_continue buffer base 1 2 v 0 =
             (2, push_bit 6 v OR (ucast (buffer ! (base + 1)) AND 0x3f), 0)" for v
    using b1 by (simp add: fetch_continue_step fetch_continue_end)
  show ?thesis
    unfolding fetchUTF8_def Let_def s
    using l by (simp add: fetch_truncate_def s c)
qed

lemma fetchUTF8_3:
  assumes b0: "buffer ! base AND 0xf0 = 0xe0"
    and b1: "buffer ! (base + 1) AND 0xc0 = 0x80"
    and b2: "buffer ! (base + 2) AND 0xc0 = 0x80"
    and sz: "3 \<le> sz"
  shows "fetchUTF8 buffer base sz co =
           fetch_finish (ucast (buffer ! base))
             (3, push_bit 6 (push_bit 6 (ucast (buffer ! base) AND 0x0f)
                   OR (ucast (buffer ! (base + 1)) AND 0x3f))
                   OR (ucast (buffer ! (base + 2)) AND 0x3f), 0)"
proof -
  from sz have s: "(sz < 1) = False" "(3 > sz) = False"
    by (auto simp add: word_le_nat_alt word_less_nat_alt)
  note l = lead_bytes(3) [OF b0]
  have c: "fetch_continue buffer base 1 3 v 0 =
             (3, push_bit 6 (push_bit 6 v OR (ucast (buffer ! (base + 1)) AND 0x3f))
                   OR (ucast (buffer ! (base + 2)) AND 0x3f), 0)" for v
    using b1 b2 by (simp add: fetch_continue_step fetch_continue_end)
  show ?thesis
    unfolding fetchUTF8_def Let_def s
    using l by (simp add: fetch_truncate_def s c)
qed

lemma fetchUTF8_4:
  assumes b0: "buffer ! base AND 0xf8 = 0xf0"
    and b1: "buffer ! (base + 1) AND 0xc0 = 0x80"
    and b2: "buffer ! (base + 2) AND 0xc0 = 0x80"
    and b3: "buffer ! (base + 3) AND 0xc0 = 0x80"
    and sz: "4 \<le> sz"
  shows "fetchUTF8 buffer base sz co =
           fetch_finish (ucast (buffer ! base))
             (4, push_bit 6 (push_bit 6 (push_bit 6 (ucast (buffer ! base) AND 0x07)
                   OR (ucast (buffer ! (base + 1)) AND 0x3f))
                   OR (ucast (buffer ! (base + 2)) AND 0x3f))
                   OR (ucast (buffer ! (base + 3)) AND 0x3f), 0)"
proof -
  from sz have s: "(sz < 1) = False" "(4 > sz) = False"
    by (auto simp add: word_le_nat_alt word_less_nat_alt)
  note l = lead_bytes(4) [OF b0]
  have c: "fetch_continue buffer base 1 4 v 0 =
             (4, push_bit 6 (push_bit 6 (push_bit 6 v OR (ucast (buffer ! (base + 1)) AND 0x3f))
                   OR (ucast (buffer ! (base + 2)) AND 0x3f))
                   OR (ucast (buffer ! (base + 3)) AND 0x3f), 0)" for v
    using b1 b2 b3 by (simp add: fetch_continue_step fetch_continue_end)
  show ?thesis
    unfolding fetchUTF8_def Let_def s
    using l by (simp add: fetch_truncate_def s c)
qed


subsection \<open>decodeUTF8 on what fetchUTF8 returns\<close>

lemma decodeUTF8_plain:
  assumes g: "no_error (get_errors text)"
    and buf: "buffer_text text = Some buffer"
    and fetch: "fetchUTF8 buffer (unat (offset_text text)) (length_text text - offset_text text)
                  (coalesce \<and> \<not> strict) = (0, unicode, n)"
    and valid: "unicode \<le> 0x10ffff" "\<not> (0xd800 \<le> unicode \<and> unicode \<le> 0xdfff)"
  shows "snd (decodeUTF8 text use_cesu use_java strict coalesce) = (unicode, n) \<and>
         no_error (fst (decodeUTF8 text use_cesu use_java strict coalesce))"
proof -
  from get_errors_ok [OF g] have g0: "get_errors text = 0" by simp
  from valid(2) surrogate_mask [of unicode]
  have ns: "(unicode AND 0xfffff800 = 0xd800) = False" by blast
  from valid(1) have hi: "(0x10ffff < unicode) = False" by (simp add: not_less)
  have c: "decodeUTF8_classify buffer (unat (offset_text text))
             (length_text text - offset_text text) use_cesu 0 unicode n =
           (if 0xd800 \<le> unicode then
              (if 0xfdd0 \<le> unicode then
                 (if unicode \<le> 0xfdef \<or> unicode AND 0xfffe = 0xfffe then NonCharacter else 0)
                   OR (if 0xffff < unicode then Supplementary else 0)
               else 0)
            else if unicode = 0 then DelimitString else 0, unicode, n)"
    unfolding decodeUTF8_classify_def Let_def
    by (simp add: ns hi none_of_def)
  show ?thesis
    unfolding decodeUTF8_def g0 Let_def buf
    by (simp add: fetch c no_error_def any_of_def bits_defs ErrorsMask_def error_def)
qed

lemma decodeUTF8_java_nul:
  assumes g: "no_error (get_errors text)"
    and buf: "buffer_text text = Some buffer"
    and fetch: "fetchUTF8 buffer (unat (offset_text text)) (length_text text - offset_text text)
                  (coalesce \<and> \<not> strict) = (ModifiedUTF8, 0, 2)"
  shows "snd (decodeUTF8 text use_cesu True strict coalesce) = (0, 2) \<and>
         no_error (fst (decodeUTF8 text use_cesu True strict coalesce))"
proof -
  from get_errors_ok [OF g] have g0: "get_errors text = 0" by simp
  have c: "decodeUTF8_classify buffer (unat (offset_text text))
             (length_text text - offset_text text) use_cesu ModifiedUTF8 0 2 = (ModifiedUTF8, 0, 2)"
    unfolding decodeUTF8_classify_def Let_def
    by (simp add: none_of_def any_of_def bits_defs)
  show ?thesis
    unfolding decodeUTF8_def g0 Let_def buf
    apply (simp add: fetch c)
    apply (simp add: no_error_def any_of_def bits_defs ErrorsMask_def error_def)
    done
qed

lemma decodeUTF8_cesu_pair:
  assumes g: "no_error (get_errors text)"
    and buf: "buffer_text text = Some buffer"
    and hi: "fetchUTF8 buffer (unat (offset_text text)) (length_text text - offset_text text)
                  (coalesce \<and> \<not> strict) = (0, 0xd800 OR dw, 3)"
    and lo: "fetchUTF8 buffer (unat (offset_text text) + 3)
                  (length_text text - offset_text text - 3) False = (0, 0xdc00 OR tw, 3)"
    and small: "dw < 2 ^ 10" "tw < 2 ^ 10"
  shows "snd (decodeUTF8 text True use_java strict coalesce)
           = (push_bit 10 dw + tw + 0x10000, 6) \<and>
         no_error (fst (decodeUTF8 text True use_java strict coalesce))"
proof -
  from get_errors_ok [OF g] have g0: "get_errors text = 0" by simp
  note hb = surrogate_bits [OF small(1)]
  note lb = surrogate_bits [OF small(2)]
  from surrogate_mask [OF hb(1)]
  have ord: "(0xd800 OR dw = 0) = False" "(0xd800 \<le> 0xd800 OR dw) = True"
    "(0x10ffff < 0xd800 OR dw) = False" "(0xfdd0 \<le> 0xd800 OR dw) = False"
    by (auto simp add: word_le_nat_alt word_less_nat_alt)
  have x: "HighSurrogate XOR (SurrogatePair OR Supplementary OR HighSurrogate)
             = SurrogatePair OR Supplementary"
    by (simp add: bits_defs)
  have c: "decodeUTF8_classify buffer (unat (offset_text text))
             (length_text text - offset_text text) True 0 (0xd800 OR dw) 3 =
           ((SurrogatePair OR Supplementary) OR
              (if (push_bit 10 dw + tw + 0x10000) AND 0xfffe = 0xfffe then NonCharacter else 0),
            push_bit 10 dw + tw + 0x10000, 6)"
    unfolding decodeUTF8_classify_def Let_def
    by (simp add: ord hb lb lo any_set_def no_error_def x)
  show ?thesis
    unfolding decodeUTF8_def g0 Let_def buf
    by (simp add: hi c no_error_def any_of_def bits_defs ErrorsMask_def error_def)
qed


subsection \<open>The bytes encodeUTF8 writes\<close>

lemma word8_eq_bits:
  fixes a b :: "8 word"
  assumes "\<forall>n<16. n < 8 \<longrightarrow> bit a n = bit b n"
  shows "a = b"
  using assms by (intro bit_word_eqI) simp

lemma continuation_byte:
  fixes x :: "8 word"
  shows "((x AND 0x3f) OR 0x80) AND 0xc0 = 0x80"
    and "((x AND 0x0f) OR 0xe0) AND 0xf0 = 0xe0"
   apply (rule word8_eq_bits, simp only: all_lt_16, simp add: bit_simps)
  apply (rule word8_eq_bits, simp only: all_lt_16, simp add: bit_simps)
  done

lemma lead_byte_1:
  fixes u :: "32 word"
  assumes "u < 2 ^ 7"
  shows "(ucast u :: 8 word) AND 0x80 = 0"
  by (rule word8_eq_bits, simp only: all_lt_16, simp add: bit_simps high_clear [OF assms])

lemma lead_byte_2:
  fixes u :: "32 word"
  assumes "u < 2 ^ 11"
  shows "(ucast (signed_drop_bit 6 u) OR 0xc0 :: 8 word) AND 0xe0 = 0xc0"
  by (rule word8_eq_bits, simp only: all_lt_16, simp add: bit_simps high_clear [OF assms])

lemma lead_byte_3:
  fixes u :: "32 word"
  assumes "u < 2 ^ 16"
  shows "(ucast (signed_drop_bit 12 u) OR 0xe0 :: 8 word) AND 0xf0 = 0xe0"
  by (rule word8_eq_bits, simp only: all_lt_16, simp add: bit_simps high_clear [OF assms])

lemma lead_byte_4:
  fixes u :: "32 word"
  assumes "u < 2 ^ 21"
  shows "(ucast (signed_drop_bit 18 u) OR 0xf0 :: 8 word) AND 0xf8 = 0xf0"
  by (rule word8_eq_bits, simp only: all_lt_16, simp add: bit_simps high_clear [OF assms])

lemma utf8_value_2:
  fixes u :: "32 word"
  assumes "u < 2 ^ 11"
  shows "push_bit 6 (ucast (ucast (signed_drop_bit 6 u) OR 0xc0 :: 8 word) AND 0x1f)
             OR (ucast ((ucast u AND 0x3f) OR 0x80 :: 8 word) AND 0x3f) = u"
  by (rule word32_eq_bits, simp only: all_lt_16, simp add: bit_simps high_clear [OF assms])

lemma utf8_value_3:
  fixes u :: "32 word"
  assumes "u < 2 ^ 16"
  shows "push_bit 6 (push_bit 6 (ucast (ucast (signed_drop_bit 12 u) OR 0xe0 :: 8 word) AND 0x0f)
             OR (ucast ((ucast (signed_drop_bit 6 u) AND 0x3f) OR 0x80 :: 8 word) AND 0x3f))
             OR (ucast ((ucast u AND 0x3f) OR 0x80 :: 8 word) AND 0x3f) = u"
  by (rule word32_eq_bits, simp only: all_lt_16, simp add: bit_simps high_clear [OF assms])

lemma utf8_value_4:
  fixes u :: "32 word"
  assumes "u < 2 ^ 21"
  shows "push_bit 6 (push_bit 6 (push_bit 6
             (ucast (ucast (signed_drop_bit 18 u) OR 0xf0 :: 8 word) AND 0x07)
             OR (ucast ((ucast (signed_drop_bit 12 u) AND 0x3f) OR 0x80 :: 8 word) AND 0x3f))
             OR (ucast ((ucast (signed_drop_bit 6 u) AND 0x3f) OR 0x80 :: 8 word) AND 0x3f))
             OR (ucast ((ucast u AND 0x3f) OR 0x80 :: 8 word) AND 0x3f) = u"
  by (rule word32_eq_bits, simp only: all_lt_16, simp add: bit_simps high_clear [OF assms])

lemma cesu8_units:
  fixes w :: "32 word"
  assumes "w < 2 ^ 20"
  shows "push_bit 6 (push_bit 6 (ucast ((ucast (signed_drop_bit 12
              (((signed_drop_bit 10 w OR push_bit 16 w) AND 0x03ff03ff) OR 0xdc00d800))
                 AND 0x0f) OR 0xe0 :: 8 word) AND 0x0f)
             OR (ucast ((ucast (signed_drop_bit 6
              (((signed_drop_bit 10 w OR push_bit 16 w) AND 0x03ff03ff) OR 0xdc00d800))
                 AND 0x3f) OR 0x80 :: 8 word) AND 0x3f))
             OR (ucast ((ucast
              (((signed_drop_bit 10 w OR push_bit 16 w) AND 0x03ff03ff) OR 0xdc00d800)
                 AND 0x3f) OR 0x80 :: 8 word) AND 0x3f) = 0xd800 OR drop_bit 10 w"
    and "push_bit 6 (push_bit 6 (ucast ((ucast (signed_drop_bit 28
              (((signed_drop_bit 10 w OR push_bit 16 w) AND 0x03ff03ff) OR 0xdc00d800))
                 AND 0x0f) OR 0xe0 :: 8 word) AND 0x0f)
             OR (ucast ((ucast (signed_drop_bit 22
              (((signed_drop_bit 10 w OR push_bit 16 w) AND 0x03ff03ff) OR 0xdc00d800))
                 AND 0x3f) OR 0x80 :: 8 word) AND 0x3f))
             OR (ucast ((ucast (signed_drop_bit 16
              (((signed_drop_bit 10 w OR push_bit 16 w) AND 0x03ff03ff) OR 0xdc00d800))
                 AND 0x3f) OR 0x80 :: 8 word) AND 0x3f) = 0xdc00 OR (w AND 0x3ff)"
   apply (rule word32_eq_bits, simp only: all_lt_16, simp add: bit_simps high_clear [OF assms])
  apply (rule word32_eq_bits, simp only: all_lt_16, simp add: bit_simps high_clear [OF assms])
  done


text \<open>A scalar at or above the lower bound of its length is not flagged overlong.\<close>

lemma not_overlong:
  fixes u :: "32 word"
  assumes "u \<le> 0x10ffff"
  shows "0x7f < u \<Longrightarrow> signed_drop_bit 7 u \<noteq> 0"
    and "0x7ff < u \<Longrightarrow> signed_drop_bit 11 u \<noteq> 0"
    and "0xffff < u \<Longrightarrow> signed_drop_bit 16 u \<noteq> 0"
proof -
  from assms have lt: "u < 2 ^ 21" by (simp add: word_le_nat_alt word_less_nat_alt)
  have d7: "signed_drop_bit 7 u = drop_bit 7 u"
    by (rule word32_eq_bits, simp only: all_lt_16, simp add: bit_simps high_clear [OF lt])
  have d11: "signed_drop_bit 11 u = drop_bit 11 u"
    by (rule word32_eq_bits, simp only: all_lt_16, simp add: bit_simps high_clear [OF lt])
  have d16: "signed_drop_bit 16 u = drop_bit 16 u"
    by (rule word32_eq_bits, simp only: all_lt_16, simp add: bit_simps high_clear [OF lt])
  have z: "drop_bit k u \<noteq> 0" if "2 ^ k \<le> unat u" for k
  proof
    assume "drop_bit k u = 0"
    then have "unat (drop_bit k u) = 0" by simp
    then have "unat u div 2 ^ k = 0" by (simp add: unat_drop_bit_eq drop_bit_nat_def)
    then have "unat u < 2 ^ k" by (simp add: div_eq_0_iff)
    with that show False by simp
  qed
  show "0x7f < u \<Longrightarrow> signed_drop_bit 7 u \<noteq> 0"
    unfolding d7 using z [of 7] by (simp add: word_less_nat_alt)
  show "0x7ff < u \<Longrightarrow> signed_drop_bit 11 u \<noteq> 0"
    unfolding d11 using z [of 11] by (simp add: word_less_nat_alt)
  show "0xffff < u \<Longrightarrow> signed_drop_bit 16 u \<noteq> 0"
    unfolding d16 using z [of 16] by (simp add: word_less_nat_alt)
qed


subsection \<open>What encodeUTF8 writes, by length\<close>

lemma encodeUTF8_nul:
  assumes ok: "no_error (get_errors text)"
    and room: "2 \<le> length_text text - offset_text text"
  shows "fst (snd (encodeUTF8 text 0 use_cesu True)) = poke text [0xc0, 0x80]"
proof -
  from get_errors_ok [OF ok] have g: "get_errors text = 0" by simp
  define limit where "limit = length_text text - offset_text text"
  from room have r: "(limit < 2) = False" by (simp add: limit_def not_less)
  show ?thesis
    unfolding encodeUTF8_def g no_error_def Let_def limit_def [symmetric]
    by (simp add: encodeUTF8_flags_props r)
qed

lemma encodeUTF8_1:
  assumes ok: "no_error (get_errors text)"
    and u: "unicode \<le> 0x7f" "\<not> (unicode = 0 \<and> use_java)"
    and room: "1 \<le> length_text text - offset_text text"
  shows "fst (snd (encodeUTF8 text unicode use_cesu use_java)) = poke text [ucast unicode]"
proof -
  from get_errors_ok [OF ok] have g: "get_errors text = 0" by simp
  define limit where "limit = length_text text - offset_text text"
  from room have r: "(limit = 0) = False" by (auto simp add: limit_def word_le_nat_alt)
  from u(2) have md: "any_of (encodeUTF8_flags 0 unicode use_cesu use_java) ModifiedUTF8 = False"
    by (simp add: encodeUTF8_flags_props)
  show ?thesis
    unfolding encodeUTF8_def g no_error_def Let_def limit_def [symmetric]
    by (simp add: encodeUTF8_flags_props(1) md u(1) r)
qed

lemma encodeUTF8_2:
  assumes ok: "no_error (get_errors text)"
    and u: "0x7f < unicode" "unicode \<le> 0x7ff"
    and room: "2 \<le> length_text text - offset_text text"
  shows "fst (snd (encodeUTF8 text unicode use_cesu use_java)) =
           poke text [ucast (signed_drop_bit 6 unicode) OR 0xc0, (ucast unicode AND 0x3f) OR 0x80]"
proof -
  from get_errors_ok [OF ok] have g: "get_errors text = 0" by simp
  define limit where "limit = length_text text - offset_text text"
  from room have r: "(limit < 2) = False" by (simp add: limit_def not_less)
  from u have c: "(unicode \<le> 0x7f) = False" by (simp add: not_le)
  show ?thesis
    unfolding encodeUTF8_def g no_error_def Let_def limit_def [symmetric]
    by (simp add: encodeUTF8_flags_props(1) c u(2) r)
qed

lemma encodeUTF8_3:
  assumes ok: "no_error (get_errors text)"
    and u: "0x7ff < unicode" "unicode \<le> 0xffff"
    and room: "3 \<le> length_text text - offset_text text"
  shows "fst (snd (encodeUTF8 text unicode use_cesu use_java)) =
           poke text [ucast (signed_drop_bit 12 unicode) OR 0xe0,
                      (ucast (signed_drop_bit 6 unicode) AND 0x3f) OR 0x80,
                      (ucast unicode AND 0x3f) OR 0x80]"
proof -
  from get_errors_ok [OF ok] have g: "get_errors text = 0" by simp
  define limit where "limit = length_text text - offset_text text"
  from room have r: "(limit < 3) = False" by (simp add: limit_def not_less)
  from u have c: "(unicode \<le> 0x7f) = False" "(unicode \<le> 0x7ff) = False"
    by (simp_all add: word_le_nat_alt word_less_nat_alt)
  show ?thesis
    unfolding encodeUTF8_def g no_error_def Let_def limit_def [symmetric]
    by (simp add: encodeUTF8_flags_props(1) c u(2) r)
qed

lemma encodeUTF8_4:
  assumes ok: "no_error (get_errors text)"
    and u: "0xffff < unicode" "unicode \<le> 0x10ffff" "\<not> use_cesu"
    and room: "4 \<le> length_text text - offset_text text"
  shows "fst (snd (encodeUTF8 text unicode use_cesu use_java)) =
           poke text [ucast (signed_drop_bit 18 unicode) OR 0xf0,
                      (ucast (signed_drop_bit 12 unicode) AND 0x3f) OR 0x80,
                      (ucast (signed_drop_bit 6 unicode) AND 0x3f) OR 0x80,
                      (ucast unicode AND 0x3f) OR 0x80]"
proof -
  from get_errors_ok [OF ok] have g: "get_errors text = 0" by simp
  define limit where "limit = length_text text - offset_text text"
  from room have r: "(limit < 4) = False" by (simp add: limit_def not_less)
  from u have c: "(unicode \<le> 0x7f) = False" "(unicode \<le> 0x7ff) = False"
    "(unicode \<le> 0xffff) = False" "(unicode \<le> 0x1fffff) = True"
    by (simp_all add: word_le_nat_alt word_less_nat_alt)
  from u(3) have sp: "any_of (encodeUTF8_flags 0 unicode use_cesu use_java) SurrogatePair = False"
    by (simp add: encodeUTF8_flags_props)
  show ?thesis
    unfolding encodeUTF8_def g no_error_def Let_def limit_def [symmetric]
    by (simp add: encodeUTF8_flags_props(1) c sp r)
qed

lemma encodeUTF8_6:
  assumes ok: "no_error (get_errors text)"
    and u: "0xffff < unicode" "unicode \<le> 0x10ffff" "use_cesu"
    and room: "6 \<le> length_text text - offset_text text"
  shows "fst (snd (encodeUTF8 text unicode use_cesu use_java)) =
           poke text [(ucast (signed_drop_bit 12 (surrogate_pair unicode)) AND 0x0f) OR 0xe0,
                      (ucast (signed_drop_bit 6 (surrogate_pair unicode)) AND 0x3f) OR 0x80,
                      (ucast (surrogate_pair unicode) AND 0x3f) OR 0x80,
                      (ucast (signed_drop_bit 28 (surrogate_pair unicode)) AND 0x0f) OR 0xe0,
                      (ucast (signed_drop_bit 22 (surrogate_pair unicode)) AND 0x3f) OR 0x80,
                      (ucast (signed_drop_bit 16 (surrogate_pair unicode)) AND 0x3f) OR 0x80]"
proof -
  from get_errors_ok [OF ok] have g: "get_errors text = 0" by simp
  define limit where "limit = length_text text - offset_text text"
  from room have r: "(limit < 6) = False" by (simp add: limit_def not_less)
  from u have c: "(unicode \<le> 0x7f) = False" "(unicode \<le> 0x7ff) = False"
    "(unicode \<le> 0xffff) = False"
    by (simp_all add: word_le_nat_alt word_less_nat_alt)
  from u have sp: "any_of (encodeUTF8_flags 0 unicode use_cesu use_java) SurrogatePair = True"
    by (simp add: encodeUTF8_flags_props)
  show ?thesis
    unfolding encodeUTF8_def g no_error_def Let_def limit_def [symmetric]
    by (simp add: encodeUTF8_flags_props(1) c sp u(2) r)
qed


subsection \<open>fetchUTF8 on the bytes encodeUTF8 wrote\<close>

lemma fetch_stored_at:
  assumes fits: "at + length bs \<le> length buffer"
  shows "i + 1 \<le> length bs \<Longrightarrow> bs ! i AND 0x80 = 0 \<Longrightarrow> 1 \<le> sz \<Longrightarrow>
           fetchUTF8 (store buffer at bs) (at + i) sz co = (0, ucast (bs ! i), 1)"
    and "i + 2 \<le> length bs \<Longrightarrow> bs ! i AND 0xe0 = 0xc0 \<Longrightarrow> bs ! (i + 1) AND 0xc0 = 0x80 \<Longrightarrow>
         2 \<le> sz \<Longrightarrow>
           fetchUTF8 (store buffer at bs) (at + i) sz co =
             fetch_finish (ucast (bs ! i))
               (2, push_bit 6 (ucast (bs ! i) AND 0x1f) OR (ucast (bs ! (i + 1)) AND 0x3f), 0)"
    and "i + 3 \<le> length bs \<Longrightarrow> bs ! i AND 0xf0 = 0xe0 \<Longrightarrow> bs ! (i + 1) AND 0xc0 = 0x80 \<Longrightarrow>
         bs ! (i + 2) AND 0xc0 = 0x80 \<Longrightarrow> 3 \<le> sz \<Longrightarrow>
           fetchUTF8 (store buffer at bs) (at + i) sz co =
             fetch_finish (ucast (bs ! i))
               (3, push_bit 6 (push_bit 6 (ucast (bs ! i) AND 0x0f)
                     OR (ucast (bs ! (i + 1)) AND 0x3f))
                     OR (ucast (bs ! (i + 2)) AND 0x3f), 0)"
    and "i + 4 \<le> length bs \<Longrightarrow> bs ! i AND 0xf8 = 0xf0 \<Longrightarrow> bs ! (i + 1) AND 0xc0 = 0x80 \<Longrightarrow>
         bs ! (i + 2) AND 0xc0 = 0x80 \<Longrightarrow> bs ! (i + 3) AND 0xc0 = 0x80 \<Longrightarrow> 4 \<le> sz \<Longrightarrow>
           fetchUTF8 (store buffer at bs) (at + i) sz co =
             fetch_finish (ucast (bs ! i))
               (4, push_bit 6 (push_bit 6 (push_bit 6 (ucast (bs ! i) AND 0x07)
                     OR (ucast (bs ! (i + 1)) AND 0x3f))
                     OR (ucast (bs ! (i + 2)) AND 0x3f))
                     OR (ucast (bs ! (i + 3)) AND 0x3f), 0)"
proof -
  note n = store_nth [OF fits]
  show "fetchUTF8 (store buffer at bs) (at + i) sz co = (0, ucast (bs ! i), 1)"
    if "i + 1 \<le> length bs" "bs ! i AND 0x80 = 0" "1 \<le> sz"
    using fetchUTF8_1 [of "store buffer at bs" "at + i" sz co] that n [of i] by simp
  show "fetchUTF8 (store buffer at bs) (at + i) sz co =
             fetch_finish (ucast (bs ! i))
               (2, push_bit 6 (ucast (bs ! i) AND 0x1f) OR (ucast (bs ! (i + 1)) AND 0x3f), 0)"
    if "i + 2 \<le> length bs" "bs ! i AND 0xe0 = 0xc0" "bs ! (i + 1) AND 0xc0 = 0x80" "2 \<le> sz"
    using fetchUTF8_2 [of "store buffer at bs" "at + i" sz co] that n [of i] n [of "i + 1"]
    by (simp add: add.assoc)
  show "fetchUTF8 (store buffer at bs) (at + i) sz co =
             fetch_finish (ucast (bs ! i))
               (3, push_bit 6 (push_bit 6 (ucast (bs ! i) AND 0x0f)
                     OR (ucast (bs ! (i + 1)) AND 0x3f))
                     OR (ucast (bs ! (i + 2)) AND 0x3f), 0)"
    if "i + 3 \<le> length bs" "bs ! i AND 0xf0 = 0xe0" "bs ! (i + 1) AND 0xc0 = 0x80"
      "bs ! (i + 2) AND 0xc0 = 0x80" "3 \<le> sz"
    using fetchUTF8_3 [of "store buffer at bs" "at + i" sz co] that
      n [of i] n [of "i + 1"] n [of "i + 2"]
    by (simp add: add.assoc)
  show "fetchUTF8 (store buffer at bs) (at + i) sz co =
             fetch_finish (ucast (bs ! i))
               (4, push_bit 6 (push_bit 6 (push_bit 6 (ucast (bs ! i) AND 0x07)
                     OR (ucast (bs ! (i + 1)) AND 0x3f))
                     OR (ucast (bs ! (i + 2)) AND 0x3f))
                     OR (ucast (bs ! (i + 3)) AND 0x3f), 0)"
    if "i + 4 \<le> length bs" "bs ! i AND 0xf8 = 0xf0" "bs ! (i + 1) AND 0xc0 = 0x80"
      "bs ! (i + 2) AND 0xc0 = 0x80" "bs ! (i + 3) AND 0xc0 = 0x80" "4 \<le> sz"
    using fetchUTF8_4 [of "store buffer at bs" "at + i" sz co] that
      n [of i] n [of "i + 1"] n [of "i + 2"] n [of "i + 3"]
    by (simp add: add.assoc)
qed


lemma fetch_encoded_1:
  assumes fits: "base + 1 \<le> length buffer" and sz: "1 \<le> sz" and u: "unicode \<le> 0x7f"
  shows "fetchUTF8 (store buffer base [ucast unicode]) base sz co = (0, unicode, 1)"
proof -
  from u have lt: "unicode < 2 ^ 7" and u8: "unicode \<le> 0xff"
    by (simp_all add: word_le_nat_alt word_less_nat_alt)
  from fits have f: "base + length [ucast unicode :: uint8_t] \<le> length buffer" by simp
  from fetch_stored_at(1) [OF f, of 0 sz co] sz lead_byte_1 [OF lt]
  show ?thesis by (simp add: ucast_byte_id [OF u8])
qed

lemma fetch_encoded_nul:
  assumes fits: "base + 2 \<le> length buffer" and sz: "2 \<le> sz"
  shows "fetchUTF8 (store buffer base [0xc0, 0x80]) base sz co = (ModifiedUTF8, 0, 2)"
proof -
  from fits have f: "base + length [0xc0, 0x80 :: uint8_t] \<le> length buffer" by simp
  from fetch_stored_at(2) [OF f, of 0 sz co] sz
  show ?thesis by (simp add: fetch_finish_plain)
qed

lemma fetch_encoded_2:
  assumes fits: "base + 2 \<le> length buffer" and sz: "2 \<le> sz"
    and u: "0x7f < unicode" "unicode \<le> 0x7ff"
  shows "fetchUTF8 (store buffer base
           [ucast (signed_drop_bit 6 unicode) OR 0xc0, (ucast unicode AND 0x3f) OR 0x80])
           base sz co = (0, unicode, 2)"
proof -
  define bs :: "uint8_t list" where
    "bs = [ucast (signed_drop_bit 6 unicode) OR 0xc0, (ucast unicode AND 0x3f) OR 0x80]"
  from u(2) have lt: "unicode < 2 ^ 11" and le: "unicode \<le> 0x10ffff"
    by (simp_all add: word_le_nat_alt word_less_nat_alt)
  have b: "bs ! 0 = ucast (signed_drop_bit 6 unicode) OR 0xc0"
    "bs ! (0 + 1) = (ucast unicode AND 0x3f) OR 0x80"
    by (simp_all add: bs_def)
  from fits have f: "base + length bs \<le> length buffer" by (simp add: bs_def)
  have "fetchUTF8 (store buffer base bs) (base + 0) sz co =
          fetch_finish (ucast (bs ! 0))
            (2, push_bit 6 (ucast (bs ! 0) AND 0x1f) OR (ucast (bs ! (0 + 1)) AND 0x3f), 0)"
    by (rule fetch_stored_at(2) [OF f])
       (simp_all only: b lead_byte_2 [OF lt] continuation_byte sz, simp add: bs_def)
  from this [unfolded b utf8_value_2 [OF lt]] not_overlong(1) [OF le u(1)]
  show ?thesis by (simp add: fetch_finish_plain bs_def)
qed


lemma fetch_encoded_3:
  assumes fits: "base + 3 \<le> length buffer" and sz: "3 \<le> sz"
    and u: "0x7ff < unicode" "unicode \<le> 0xffff"
  shows "fetchUTF8 (store buffer base
           [ucast (signed_drop_bit 12 unicode) OR 0xe0,
            (ucast (signed_drop_bit 6 unicode) AND 0x3f) OR 0x80,
            (ucast unicode AND 0x3f) OR 0x80])
           base sz co = (0, unicode, 3)"
proof -
  define bs :: "uint8_t list" where
    "bs = [ucast (signed_drop_bit 12 unicode) OR 0xe0,
           (ucast (signed_drop_bit 6 unicode) AND 0x3f) OR 0x80,
           (ucast unicode AND 0x3f) OR 0x80]"
  from u(2) have lt: "unicode < 2 ^ 16" and le: "unicode \<le> 0x10ffff"
    by (simp_all add: word_le_nat_alt word_less_nat_alt)
  have b: "bs ! 0 = ucast (signed_drop_bit 12 unicode) OR 0xe0"
    "bs ! (0 + 1) = (ucast (signed_drop_bit 6 unicode) AND 0x3f) OR 0x80"
    "bs ! (0 + 2) = (ucast unicode AND 0x3f) OR 0x80"
    by (simp_all add: bs_def)
  from fits have f: "base + length bs \<le> length buffer" by (simp add: bs_def)
  have "fetchUTF8 (store buffer base bs) (base + 0) sz co =
          fetch_finish (ucast (bs ! 0))
            (3, push_bit 6 (push_bit 6 (ucast (bs ! 0) AND 0x0f)
                  OR (ucast (bs ! (0 + 1)) AND 0x3f))
                  OR (ucast (bs ! (0 + 2)) AND 0x3f), 0)"
    by (rule fetch_stored_at(3) [OF f])
       (simp_all only: b lead_byte_3 [OF lt] continuation_byte sz, simp add: bs_def)
  from this [unfolded b utf8_value_3 [OF lt]] not_overlong(2) [OF le u(1)]
  show ?thesis by (simp add: fetch_finish_plain bs_def)
qed

lemma fetch_encoded_4:
  assumes fits: "base + 4 \<le> length buffer" and sz: "4 \<le> sz"
    and u: "0xffff < unicode" "unicode \<le> 0x10ffff"
  shows "fetchUTF8 (store buffer base
           [ucast (signed_drop_bit 18 unicode) OR 0xf0,
            (ucast (signed_drop_bit 12 unicode) AND 0x3f) OR 0x80,
            (ucast (signed_drop_bit 6 unicode) AND 0x3f) OR 0x80,
            (ucast unicode AND 0x3f) OR 0x80])
           base sz co = (0, unicode, 4)"
proof -
  define bs :: "uint8_t list" where
    "bs = [ucast (signed_drop_bit 18 unicode) OR 0xf0,
           (ucast (signed_drop_bit 12 unicode) AND 0x3f) OR 0x80,
           (ucast (signed_drop_bit 6 unicode) AND 0x3f) OR 0x80,
           (ucast unicode AND 0x3f) OR 0x80]"
  from u(2) have lt: "unicode < 2 ^ 21"
    by (simp_all add: word_le_nat_alt word_less_nat_alt)
  have b: "bs ! 0 = ucast (signed_drop_bit 18 unicode) OR 0xf0"
    "bs ! (0 + 1) = (ucast (signed_drop_bit 12 unicode) AND 0x3f) OR 0x80"
    "bs ! (0 + 2) = (ucast (signed_drop_bit 6 unicode) AND 0x3f) OR 0x80"
    "bs ! (0 + 3) = (ucast unicode AND 0x3f) OR 0x80"
    by (simp_all add: bs_def)
  from fits have f: "base + length bs \<le> length buffer" by (simp add: bs_def)
  have "fetchUTF8 (store buffer base bs) (base + 0) sz co =
          fetch_finish (ucast (bs ! 0))
            (4, push_bit 6 (push_bit 6 (push_bit 6 (ucast (bs ! 0) AND 0x07)
                  OR (ucast (bs ! (0 + 1)) AND 0x3f))
                  OR (ucast (bs ! (0 + 2)) AND 0x3f))
                  OR (ucast (bs ! (0 + 3)) AND 0x3f), 0)"
    by (rule fetch_stored_at(4) [OF f])
       (simp_all only: b lead_byte_4 [OF lt] continuation_byte sz, simp add: bs_def)
  from this [unfolded b utf8_value_4 [OF lt]] not_overlong(3) [OF u(2) u(1)]
  show ?thesis by (simp add: fetch_finish_plain bs_def)
qed

lemma surrogate_not_overlong:
  fixes x :: "32 word"
  assumes "x < 2 ^ 10"
  shows "signed_drop_bit 11 (0xd800 OR x) \<noteq> 0" "signed_drop_bit 11 (0xdc00 OR x) \<noteq> 0"
proof -
  have "bit (signed_drop_bit 11 (0xd800 OR x)) 4" by (simp add: bit_simps)
  then show "signed_drop_bit 11 (0xd800 OR x) \<noteq> 0" by auto
  have "bit (signed_drop_bit 11 (0xdc00 OR x)) 4" by (simp add: bit_simps)
  then show "signed_drop_bit 11 (0xdc00 OR x) \<noteq> 0" by auto
qed

lemma fetch_encoded_6:
  fixes unicode :: unicode_t
  assumes fits: "base + 6 \<le> length buffer" and sz: "3 \<le> sz" "3 \<le> sz'"
    and u: "0xffff < unicode" "unicode \<le> 0x10ffff"
  defines "bs \<equiv> [(ucast (signed_drop_bit 12 (surrogate_pair unicode)) AND 0x0f) OR 0xe0,
                   (ucast (signed_drop_bit 6 (surrogate_pair unicode)) AND 0x3f) OR 0x80,
                   (ucast (surrogate_pair unicode) AND 0x3f) OR 0x80,
                   (ucast (signed_drop_bit 28 (surrogate_pair unicode)) AND 0x0f) OR 0xe0,
                   (ucast (signed_drop_bit 22 (surrogate_pair unicode)) AND 0x3f) OR 0x80,
                   (ucast (signed_drop_bit 16 (surrogate_pair unicode)) AND 0x3f) OR 0x80 :: uint8_t]"
  shows "fetchUTF8 (store buffer base bs) base sz co
           = (0, 0xd800 OR drop_bit 10 (unicode - 0x10000), 3)"
    and "fetchUTF8 (store buffer base bs) (base + 3) sz' co'
           = (0, 0xdc00 OR ((unicode - 0x10000) AND 0x3ff), 3)"
proof -
  note w = surrogate_offset [OF u]
  note h = surrogate_halves [OF w]
  note v = cesu8_units [OF w, folded surrogate_pair_def [unfolded Let_def]]
  have b: "bs ! 0 = (ucast (signed_drop_bit 12 (surrogate_pair unicode)) AND 0x0f) OR 0xe0"
    "bs ! (0 + 1) = (ucast (signed_drop_bit 6 (surrogate_pair unicode)) AND 0x3f) OR 0x80"
    "bs ! (0 + 2) = (ucast (surrogate_pair unicode) AND 0x3f) OR 0x80"
    "bs ! 3 = (ucast (signed_drop_bit 28 (surrogate_pair unicode)) AND 0x0f) OR 0xe0"
    "bs ! (3 + 1) = (ucast (signed_drop_bit 22 (surrogate_pair unicode)) AND 0x3f) OR 0x80"
    "bs ! (3 + 2) = (ucast (signed_drop_bit 16 (surrogate_pair unicode)) AND 0x3f) OR 0x80"
    by (simp_all add: bs_def)
  from fits have f: "base + length bs \<le> length buffer" by (simp add: bs_def)
  have "fetchUTF8 (store buffer base bs) (base + 0) sz co =
          fetch_finish (ucast (bs ! 0))
            (3, push_bit 6 (push_bit 6 (ucast (bs ! 0) AND 0x0f)
                  OR (ucast (bs ! (0 + 1)) AND 0x3f))
                  OR (ucast (bs ! (0 + 2)) AND 0x3f), 0)"
    by (rule fetch_stored_at(3) [OF f])
       (simp_all only: b continuation_byte sz, simp add: bs_def)
  from this [unfolded b v] surrogate_not_overlong(1) [OF h(1)]
  show "fetchUTF8 (store buffer base bs) base sz co
           = (0, 0xd800 OR drop_bit 10 (unicode - 0x10000), 3)"
    by (simp add: fetch_finish_plain)
  have "fetchUTF8 (store buffer base bs) (base + 3) sz' co' =
          fetch_finish (ucast (bs ! 3))
            (3, push_bit 6 (push_bit 6 (ucast (bs ! 3) AND 0x0f)
                  OR (ucast (bs ! (3 + 1)) AND 0x3f))
                  OR (ucast (bs ! (3 + 2)) AND 0x3f), 0)"
    by (rule fetch_stored_at(3) [OF f])
       (simp_all only: b continuation_byte sz, simp add: bs_def)
  from this [unfolded b v] surrogate_not_overlong(2) [OF h(2)]
  show "fetchUTF8 (store buffer base bs) (base + 3) sz' co'
           = (0, 0xdc00 OR ((unicode - 0x10000) AND 0x3ff), 3)"
    by (simp add: fetch_finish_plain)
qed


subsection \<open>Encoding, then decoding at the same offset\<close>

lemma decodeUTF8_poked:
  assumes ok: "no_error (get_errors text)"
    and buf: "buffer_text text = Some buffer"
    and fetch: "fetchUTF8 (store buffer (unat (offset_text text)) bs) (unat (offset_text text))
                  (length_text text - offset_text text) (coalesce \<and> \<not> strict) = (0, unicode, n)"
    and valid: "unicode \<le> 0x10ffff" "\<not> (0xd800 \<le> unicode \<and> unicode \<le> 0xdfff)"
  shows "snd (decodeUTF8 (poke text bs) use_cesu use_java strict coalesce) = (unicode, n) \<and>
         no_error (fst (decodeUTF8 (poke text bs) use_cesu use_java strict coalesce))"
proof (rule decodeUTF8_plain [OF _ poke_buffer [OF buf] _ valid])
  show "no_error (get_errors (poke text bs))" using ok by simp
  show "fetchUTF8 (store buffer (unat (offset_text text)) bs) (unat (offset_text (poke text bs)))
          (length_text (poke text bs) - offset_text (poke text bs)) (coalesce \<and> \<not> strict)
          = (0, unicode, n)"
    using fetch by simp
qed

lemma roundtripUTF8:
  assumes ok: "no_error (get_errors text)"
    and valid: "unicode \<le> 0x10ffff" "\<not> (0xd800 \<le> unicode \<and> unicode \<le> 0xdfff)"
    and room: "lenUTF8 unicode use_cesu use_java \<le> length_text text - offset_text text"
    and buf: "buffer_text text = Some buffer"
    and len: "unat (length_text text) \<le> length buffer"
  shows "snd (decodeUTF8 (fst (snd (encodeUTF8 text unicode use_cesu use_java)))
               use_cesu use_java strict coalesce)
           = (unicode, lenUTF8 unicode use_cesu use_java) \<and>
         no_error (fst (decodeUTF8 (fst (snd (encodeUTF8 text unicode use_cesu use_java)))
               use_cesu use_java strict coalesce))"
proof -
  let ?base = "unat (offset_text text)"
  let ?limit = "length_text text - offset_text text"
  from get_errors_ok [OF ok] have off: "offset_text text \<le> length_text text" by simp
  consider (nul) "unicode = 0" "use_java"
    | (one) "unicode \<le> 0x7f" "\<not> (unicode = 0 \<and> use_java)"
    | (two) "0x7f < unicode" "unicode \<le> 0x7ff"
    | (three) "0x7ff < unicode" "unicode \<le> 0xffff"
    | (four) "0xffff < unicode" "\<not> use_cesu"
    | (six) "0xffff < unicode" "use_cesu"
    by (meson not_le_imp_less)
  then show ?thesis
  proof cases
    case nul
    then have l: "lenUTF8 unicode use_cesu use_java = 2" by (simp add: lenUTF8_def)
    from room have r: "2 \<le> ?limit" by (simp add: l)
    from room_nat [OF off r len] have fits: "?base + 2 \<le> length buffer" by simp
    have t: "fst (snd (encodeUTF8 text 0 use_cesu True)) = poke text [0xc0, 0x80]"
      by (rule encodeUTF8_nul [OF ok r])
    have "snd (decodeUTF8 (poke text [0xc0, 0x80]) use_cesu True strict coalesce) = (0, 2) \<and>
          no_error (fst (decodeUTF8 (poke text [0xc0, 0x80]) use_cesu True strict coalesce))"
    proof (rule decodeUTF8_java_nul [OF _ poke_buffer [OF buf]])
      show "no_error (get_errors (poke text [0xc0, 0x80]))" using ok by simp
      show "fetchUTF8 (store buffer ?base [0xc0, 0x80])
              (unat (offset_text (poke text [0xc0, 0x80])))
              (length_text (poke text [0xc0, 0x80]) - offset_text (poke text [0xc0, 0x80]))
              (coalesce \<and> \<not> strict) = (ModifiedUTF8, 0, 2)"
        using fetch_encoded_nul [OF fits r] by simp
    qed
    with nul show ?thesis by (simp add: t lenUTF8_def)
  next
    case one
    then have l: "lenUTF8 unicode use_cesu use_java = 1"
      by (auto simp add: lenUTF8_def word_le_nat_alt)
    from room have r: "1 \<le> ?limit" by (simp add: l)
    from room_nat [OF off r len] have fits: "?base + 1 \<le> length buffer" by simp
    note t = encodeUTF8_1 [OF ok one r, of use_cesu]
    from decodeUTF8_poked [OF ok buf fetch_encoded_1 [OF fits r one(1)] valid]
    show ?thesis unfolding t l .
  next
    case two
    then have l: "lenUTF8 unicode use_cesu use_java = 2"
      by (auto simp add: lenUTF8_def word_le_nat_alt word_less_nat_alt)
    from room have r: "2 \<le> ?limit" by (simp add: l)
    from room_nat [OF off r len] have fits: "?base + 2 \<le> length buffer" by simp
    note t = encodeUTF8_2 [OF ok two r, of use_cesu use_java]
    from decodeUTF8_poked [OF ok buf fetch_encoded_2 [OF fits r two] valid]
    show ?thesis unfolding t l .
  next
    case three
    then have l: "lenUTF8 unicode use_cesu use_java = 3"
      by (auto simp add: lenUTF8_def word_le_nat_alt word_less_nat_alt)
    from room have r: "3 \<le> ?limit" by (simp add: l)
    from room_nat [OF off r len] have fits: "?base + 3 \<le> length buffer" by simp
    note t = encodeUTF8_3 [OF ok three r, of use_cesu use_java]
    from decodeUTF8_poked [OF ok buf fetch_encoded_3 [OF fits r three] valid]
    show ?thesis unfolding t l .
  next
    case four
    with valid(1) have l: "lenUTF8 unicode use_cesu use_java = 4"
      by (auto simp add: lenUTF8_def word_le_nat_alt word_less_nat_alt)
    from room have r: "4 \<le> ?limit" by (simp add: l)
    from room_nat [OF off r len] have fits: "?base + 4 \<le> length buffer" by simp
    note t = encodeUTF8_4 [OF ok four(1) valid(1) four(2) r, of use_java]
    from decodeUTF8_poked [OF ok buf fetch_encoded_4 [OF fits r four(1) valid(1)] valid]
    show ?thesis unfolding t l .
  next
    case six
    with valid(1) have l: "lenUTF8 unicode use_cesu use_java = 6"
      by (auto simp add: lenUTF8_def word_le_nat_alt word_less_nat_alt)
    from room have r: "6 \<le> ?limit" by (simp add: l)
    from room_nat [OF off r len] have fits: "?base + 6 \<le> length buffer" by simp
    from r have r3: "3 \<le> ?limit" "3 \<le> ?limit - 3"
      by (simp_all add: word_le_nat_alt unat_sub)
    define bs :: "uint8_t list" where
      "bs = [(ucast (signed_drop_bit 12 (surrogate_pair unicode)) AND 0x0f) OR 0xe0,
             (ucast (signed_drop_bit 6 (surrogate_pair unicode)) AND 0x3f) OR 0x80,
             (ucast (surrogate_pair unicode) AND 0x3f) OR 0x80,
             (ucast (signed_drop_bit 28 (surrogate_pair unicode)) AND 0x0f) OR 0xe0,
             (ucast (signed_drop_bit 22 (surrogate_pair unicode)) AND 0x3f) OR 0x80,
             (ucast (signed_drop_bit 16 (surrogate_pair unicode)) AND 0x3f) OR 0x80]"
    note t = encodeUTF8_6 [OF ok six(1) valid(1) six(2) r, of use_java, folded bs_def]
    note f = fetch_encoded_6 [OF fits r3 six(1) valid(1), folded bs_def]
    note w = surrogate_halves [OF surrogate_offset [OF six(1) valid(1)]]
    have "snd (decodeUTF8 (poke text bs) True use_java strict coalesce)
            = (push_bit 10 (drop_bit 10 (unicode - 0x10000))
                 + ((unicode - 0x10000) AND 0x3ff) + 0x10000, 6) \<and>
          no_error (fst (decodeUTF8 (poke text bs) True use_java strict coalesce))"
    proof (rule decodeUTF8_cesu_pair [OF _ poke_buffer [OF buf] _ _ w(1,2)])
      show "no_error (get_errors (poke text bs))" using ok by simp
      show "fetchUTF8 (store buffer ?base bs) (unat (offset_text (poke text bs)))
              (length_text (poke text bs) - offset_text (poke text bs)) (coalesce \<and> \<not> strict)
              = (0, 0xd800 OR drop_bit 10 (unicode - 0x10000), 3)"
        using f(1) by simp
      show "fetchUTF8 (store buffer ?base bs) (unat (offset_text (poke text bs)) + 3)
              (length_text (poke text bs) - offset_text (poke text bs) - 3) False
              = (0, 0xdc00 OR ((unicode - 0x10000) AND 0x3ff), 3)"
        using f(2) by simp
    qed
    with six(2) show ?thesis unfolding t l by (simp add: w(3))
  qed
qed

section \<open>Round trip through a handler\<close>

text \<open>
  C6 as stated fails for the handlers that cannot encode every valid scalar: U+00E9 is
  valid, the ASCII handler's \<open>set\<close> rejects it and writes nothing (its \<open>len\<close> is 0), and
  \<open>get\<close> at the same position reads what was there before, here scalar 0 with 1 byte.
\<close>

theorem ascii_roundtrip_counterexample:
  "0xE9 \<le> (0x10FFFF :: unicode_t) \<and> \<not> (0xD800 \<le> (0xE9 :: unicode_t) \<and> (0xE9 :: unicode_t) \<le> 0xDFFF) \<and>
   set ASCII \<lparr>length_text = 4, offset_text = 0, buffer_text = Some [0, 0, 0, 0]\<rparr> 0xE9
     = (Failed OR NotEncodable OR NotEnoughBits,
        \<lparr>length_text = 4, offset_text = 0, buffer_text = Some [0, 0, 0, 0]\<rparr>, 0) \<and>
   get ASCII \<lparr>length_text = 4, offset_text = 0, buffer_text = Some [0, 0, 0, 0]\<rparr>
     = (DelimitString, 0, 1) \<and>
   len ASCII 0xE9 = 0"
  by (simp add: eval_defs encodeBYTE_def decodeBYTE_def)

text \<open>
  C6, amended.  For every valid scalar (at most U+10FFFF, not a surrogate) and every
  handler whose \<open>len\<close> for the scalar is not 0, on a cursor that passes the handler's
  pre-flight, has room for \<open>len\<close> bytes after the offset and whose region holds
  \<open>length\<close> bytes: \<open>set\<close>, then \<open>get\<close> on the resulting cursor at the same offset,
  returns the scalar, a byte count equal to \<open>len\<close>, and a diagnostic with no error bit.
\<close>

theorem handler_roundtrip:
  assumes valid: "unicode \<le> 0x10FFFF" "\<not> (0xD800 \<le> unicode \<and> unicode \<le> 0xDFFF)"
    and nz: "len tag unicode \<noteq> 0"
    and ok: "no_error (get_errors_aligned text (unitSize tag - 1))"
    and room: "len tag unicode \<le> length_text text - offset_text text"
    and buf: "buffer_text text = Some buffer"
    and len: "unat (length_text text) \<le> length buffer"
  shows "snd (get tag (fst (snd (set tag text unicode)))) = (unicode, len tag unicode) \<and>
         no_error (fst (get tag (fst (snd (set tag text unicode)))))"
proof -
  from get_errors_aligned_ok [OF ok] have g: "no_error (get_errors text)" by simp
  note u8 = roundtripUTF8 [OF g valid _ buf len]
  note u16 = roundtripUTF16 [OF _ valid _ _ buf len]
  note u32 = roundtripUTF32 [OF _ valid _ buf len]
  have by1: "decodeBYTE (fst (snd (encodeBYTE text unicode a))) a c
               = ((if unicode = 0 then DelimitString else 0), unicode, 1)"
    if "unicode \<le> (if a then 0x7f else 0xff)" "1 \<le> length_text text - offset_text text" for a c
    using roundtripBYTE [OF g that buf len] .
  have cp: "decodeCP1252 (fst (snd (encodeCP1252 text unicode s))) s' c
               = ((if unicode = 0 then DelimitString else 0), unicode, 1)"
    if "unicode \<le> 0x7f" "1 \<le> length_text text - offset_text text" for s s' c
    using roundtripCP1252 [OF g that buf len] .
  have fl: "no_error (if unicode = 0 then DelimitString else 0)" by (simp add: no_error_def)
  show ?thesis
  proof (cases tag)
    case BYTE
    from nz room have "unicode \<le> 0xff" "1 \<le> length_text text - offset_text text"
      "len tag unicode = 1"
      using len_byte_cases(1) [of unicode] len_byte_one(1) [of unicode] unfolding BYTE by auto
    with by1 [of False True] fl show ?thesis unfolding BYTE by simp
  next
    case BYTEns
    from nz room have "unicode \<le> 0xff" "1 \<le> length_text text - offset_text text"
      "len tag unicode = 1"
      using len_byte_cases(2) [of unicode] len_byte_one(2) [of unicode] unfolding BYTEns by auto
    with by1 [of False False] fl show ?thesis unfolding BYTEns by simp
  next
    case ASCII
    from nz room have "unicode \<le> 0x7f" "1 \<le> length_text text - offset_text text"
      "len tag unicode = 1"
      using len_byte_cases(3) [of unicode] len_byte_one(3) [of unicode] unfolding ASCII by auto
    with by1 [of True True] fl show ?thesis unfolding ASCII by simp
  next
    case ASCIIns
    from nz room have "unicode \<le> 0x7f" "1 \<le> length_text text - offset_text text"
      "len tag unicode = 1"
      using len_byte_cases(4) [of unicode] len_byte_one(4) [of unicode] unfolding ASCIIns by auto
    with by1 [of True False] fl show ?thesis unfolding ASCIIns by simp
  next
    case CP1252
    from nz room have "unicode \<le> 0x7f" "1 \<le> length_text text - offset_text text"
      "len tag unicode = 1"
      using len_byte_cases(5) [of unicode] len_byte_one(5) [of unicode] unfolding CP1252 by auto
    with cp [of False False True] fl show ?thesis unfolding CP1252 by simp
  next
    case CP1252ns
    from nz room have "unicode \<le> 0x7f" "1 \<le> length_text text - offset_text text"
      "len tag unicode = 1"
      using len_byte_cases(6) [of unicode] len_byte_one(6) [of unicode] unfolding CP1252ns by auto
    with cp [of False False False] fl show ?thesis unfolding CP1252ns by simp
  next
    case CP1252st
    from nz room have "unicode \<le> 0x7f" "1 \<le> length_text text - offset_text text"
      "len tag unicode = 1"
      using len_byte_cases(7) [of unicode] len_byte_one(7) [of unicode] unfolding CP1252st by auto
    with cp [of True True False] fl show ?thesis unfolding CP1252st by simp
  qed (use ok nz room in \<open>simp_all add: u8 u16 u32\<close>)
qed

theorem handler_roundtrip_witness:
  "(0x20AC :: unicode_t) \<le> 0x10FFFF \<and>
   \<not> (0xD800 \<le> (0x20AC :: unicode_t) \<and> (0x20AC :: unicode_t) \<le> 0xDFFF) \<and>
   len UTF8st 0x20AC = 3 \<and>
   no_error (get_errors_aligned
     \<lparr>length_text = 4, offset_text = 1, buffer_text = Some [0, 0, 0, 0]\<rparr> (unitSize UTF8st - 1)) \<and>
   len UTF8st 0x20AC \<le> 4 - 1 \<and> unat (4 :: uint32_t) \<le> length [0, 0, 0, 0 :: uint8_t] \<and>
   set UTF8st \<lparr>length_text = 4, offset_text = 1, buffer_text = Some [0, 0, 0, 0]\<rparr> 0x20AC
     = (0, \<lparr>length_text = 4, offset_text = 1, buffer_text = Some [0, 0xE2, 0x82, 0xAC]\<rparr>, 3) \<and>
   get UTF8st \<lparr>length_text = 4, offset_text = 1, buffer_text = Some [0, 0xE2, 0x82, 0xAC]\<rparr>
     = (0, 0x20AC, 3)"
proof -
  let ?t = "\<lparr>length_text = 4, offset_text = 1, buffer_text = Some [0, 0, 0, 0 :: uint8_t]\<rparr>"
  have h1: "(0x20AC :: unicode_t) \<le> 0x10FFFF"
    and h2: "\<not> (0xD800 \<le> (0x20AC :: unicode_t) \<and> (0x20AC :: unicode_t) \<le> 0xDFFF)"
    and h3: "len UTF8st 0x20AC \<noteq> 0"
    and h4: "no_error (get_errors_aligned ?t (unitSize UTF8st - 1))"
    and h5: "len UTF8st 0x20AC \<le> length_text ?t - offset_text ?t"
    and h6: "buffer_text ?t = Some [0, 0, 0, 0]"
    and h7: "unat (length_text ?t) \<le> length [0, 0, 0, 0 :: uint8_t]"
    by (simp_all add: eval_defs lenUTF8_def)
  have s: "set UTF8st ?t 0x20AC
     = (0, \<lparr>length_text = 4, offset_text = 1, buffer_text = Some [0, 0xE2, 0x82, 0xAC]\<rparr>, 3)"
    by (simp add: eval_defs encodeUTF8_def encodeUTF8_flags_def poke_def)
  from handler_roundtrip [OF h1 h2 h3 h4 h5 h6 h7] h1 h2 h4 s
  show ?thesis by (simp add: eval_defs lenUTF8_def)
qed

end
